theory Spec2Isabelle
  imports Complex_Main "HOL-Library.Signed_Division" "HOL-Library.Word"
begin

section \<open>Machine-level conventions\<close>

text \<open>
  The loader is C++ and its \<open>int\<close> has 32 bits. The counts and item indices
  (\<open>_count\<close>, \<open>_itemsPerThread\<close>, \<open>_startInds\<close>, \<open>_endInds\<close>) stay between 0 and
  the batch size and are modelled as \<open>int\<close>. The byte offsets and byte sizes are
  products of an index or of the batch size with \<open>_datumSize\<close> or \<open>_targetSize\<close>,
  and such a product can leave the range of \<open>int\<close>: \<open>c_mul\<close> is the 32-bit product,
  the exact product taken modulo \<open>2^32\<close> into the range from \<open>-2^31\<close> to \<open>2^31 - 1\<close>.
  Pointers have more than 32 bits, so that a pointer advanced by an \<open>int\<close> is an exact
  sum. Division is C's: it truncates towards zero (\<open>sdiv\<close>) and is undefined for a
  zero divisor, which the model reports as a fault. A failed \<open>assert\<close> and an access
  outside a buffer are faults as well.
\<close>

datatype fault = DivisionByZero | AssertionFailed | OutOfBounds | NullPointer

definition c_div :: "int \<Rightarrow> int \<Rightarrow> fault + int" where
  "c_div a b = (if b = 0 then Inl DivisionByZero else Inr (a sdiv b))"

definition c_mul :: "int \<Rightarrow> int \<Rightarrow> int" where
  "c_mul a b = (a * b + 2147483648) mod 4294967296 - 2147483648"

type_synonym byte = "8 word"

section \<open>DecodeThreadPool: construction and the per-worker partition\<close>

text \<open>
  The members of \<open>DecodeThreadPool\<close> (and the members \<open>_count\<close> and \<open>_done\<close> it
  inherits from \<open>ThreadPool\<close>) that carry data. Thread handles are counted:
  \<open>threads\<close> is the length of \<open>_threads\<close>, \<open>manager\<close> says whether \<open>_manager\<close>
  is non-null.
\<close>

record DecodeThreadPool =
  count :: int
  doneFlag :: bool
  threads :: nat
  itemsPerThread :: int
  endSignaled :: int
  manager :: bool
  stopManager :: bool
  managerStopped :: bool
  bufferIndex :: int
  batchSize :: int
  datumSize :: int
  targetSize :: int
  startSignaled :: "int list"
  startInds :: "int list"
  endInds :: "int list"
  dataOffsets :: "int list"
  targetOffsets :: "int list"
  targetSpans :: "int list"

text \<open>
  The constructor. \<open>_itemsPerThread\<close> is \<open>(batchSize - 1) / count + 1\<close>; the two
  assertions follow; the loop pushes one zero per worker onto each vector.
\<close>

definition DecodeThreadPool_ctor :: "int \<Rightarrow> int \<Rightarrow> int \<Rightarrow> int \<Rightarrow> fault + DecodeThreadPool" where
  "DecodeThreadPool_ctor cnt bs ds ts =
     (case c_div (bs - 1) cnt of
        Inl f \<Rightarrow> Inl f
      | Inr q \<Rightarrow>
          (let ipt = q + 1 in
           if \<not> (ipt * cnt \<ge> bs) then Inl AssertionFailed
           else if \<not> (ipt * (cnt - 1) < bs) then Inl AssertionFailed
           else Inr \<lparr> count = cnt, doneFlag = False, threads = 0,
                      itemsPerThread = ipt, endSignaled = 0,
                      manager = False, stopManager = False, managerStopped = False,
                      bufferIndex = 0, batchSize = bs, datumSize = ds, targetSize = ts,
                      startSignaled = replicate (nat cnt) 0,
                      startInds = replicate (nat cnt) 0,
                      endInds = replicate (nat cnt) 0,
                      dataOffsets = replicate (nat cnt) 0,
                      targetOffsets = replicate (nat cnt) 0,
                      targetSpans = replicate (nat cnt) 0 \<rparr>))"

text \<open>
  The head of \<open>run(id)\<close>, up to its \<open>while\<close> loop: worker \<open>id\<close> fills in its own
  entry of each partition vector. Worker ids are the loop indices \<open>0 .. _count - 1\<close>
  of \<open>DecodeThreadPool::start\<close>, hence naturals. The two offsets and the span are
  32-bit products.
\<close>

definition run_init :: "nat \<Rightarrow> DecodeThreadPool \<Rightarrow> fault + DecodeThreadPool" where
  "run_init wid p =
     (if \<not> (int wid < count p) then Inl AssertionFailed
      else if \<not> (wid < length (startInds p)) then Inl OutOfBounds
      else
        (let start = int wid * itemsPerThread p;
             itemCount = (if int wid = count p - 1
                          then batchSize p - int wid * itemsPerThread p
                          else itemsPerThread p)
         in Inr (p \<lparr> startInds := (startInds p)[wid := start],
                     endInds := (endInds p)[wid := start + itemCount],
                     dataOffsets := (dataOffsets p)[wid := c_mul start (datumSize p)],
                     targetOffsets := (targetOffsets p)[wid := c_mul start (targetSize p)],
                     targetSpans := (targetSpans p)[wid := c_mul itemCount (targetSize p)] \<rparr>)))"

text \<open>
  The thread-count computation of \<open>Loader::start\<close>; \<open>numCores\<close> is the value of
  \<open>thread::hardware_concurrency()\<close>.
\<close>

definition start_threadCount :: "int \<Rightarrow> int \<Rightarrow> fault + int" where
  "start_threadCount bs numCores =
     (case c_div (bs - 1) numCores of
        Inl f \<Rightarrow> Inl f
      | Inr q1 \<Rightarrow>
          (let itemsPerThread0 = q1 + 1 in
           case c_div (bs - 1) itemsPerThread0 of
             Inl f \<Rightarrow> Inl f
           | Inr q2 \<Rightarrow>
               (let threadCount = q2 + 1 in
                Inr (min threadCount bs))))"

section \<open>Buffers and buffer pools\<close>

text \<open>
  Modelled from the spec: \<open>Buffer\<close>, \<open>BufferPair\<close> and \<open>BufferPool\<close> are declared in a
  header that is not among the sources. A Buffer is a byte region of fixed capacity
  (\<open>_data\<close>; \<open>_size\<close> is its length) with an item index that maps the logical
  item slot \<open>i\<close> to an offset and a length inside the region. \<open>getItem\<close> yields the
  pointer (the offset) and the length of item \<open>i\<close>, or the null pointer (\<open>None\<close>)
  when the buffer holds no such item.
\<close>

record Buffer =
  data :: "byte list"
  items :: "(nat \<times> nat) list"

type_synonym BufferPair = "Buffer \<times> Buffer"

definition getItem :: "Buffer \<Rightarrow> int \<Rightarrow> (nat \<times> nat) option" where
  "getItem b i = (if 0 \<le> i \<and> nat i < length (items b) then Some (items b ! nat i) else None)"

definition item_bytes :: "Buffer \<Rightarrow> nat \<times> nat \<Rightarrow> byte list" where
  "item_bytes b ol = take (snd ol) (drop (fst ol) (data b))"

text \<open>
  Modelled from the spec: a BufferPool is a ring of exactly two BufferPair slots with a
  read cursor and a write cursor that move forward modulo 2, and an occupancy between
  0 and 2 from which \<open>empty\<close> and \<open>full\<close> are read. The two condition variables are
  represented by the number of notifications sent on each.
\<close>

record BufferPool =
  bufs :: "BufferPair list"
  readPos :: nat
  writePos :: nat
  used :: int
  pinned :: bool
  nonEmptySignals :: nat
  nonFullSignals :: nat

definition BufferPool_ctor :: "int \<Rightarrow> int \<Rightarrow> bool \<Rightarrow> BufferPool" where
  "BufferPool_ctor dSize tSize pin =
     \<lparr> bufs = replicate 2 (\<lparr> data = replicate (nat dSize) 0, items = [] \<rparr>,
                            \<lparr> data = replicate (nat tSize) 0, items = [] \<rparr>),
       readPos = 0, writePos = 0, used = 0, pinned = pin,
       nonEmptySignals = 0, nonFullSignals = 0 \<rparr>"

definition pool_empty :: "BufferPool \<Rightarrow> bool" where
  "pool_empty q = (used q = 0)"

definition pool_full :: "BufferPool \<Rightarrow> bool" where
  "pool_full q = (used q = 2)"

definition getForWrite :: "BufferPool \<Rightarrow> BufferPair" where
  "getForWrite q = bufs q ! writePos q"

definition getForRead :: "BufferPool \<Rightarrow> BufferPair" where
  "getForRead q = bufs q ! readPos q"

text \<open>The effect of writing through the reference that \<open>getForWrite\<close> returned.\<close>

definition putForWrite :: "BufferPool \<Rightarrow> BufferPair \<Rightarrow> BufferPool" where
  "putForWrite q bp = q \<lparr> bufs := (bufs q)[writePos q := bp] \<rparr>"

definition advanceWritePos :: "BufferPool \<Rightarrow> BufferPool" where
  "advanceWritePos q = q \<lparr> writePos := (writePos q + 1) mod 2, used := used q + 1 \<rparr>"

definition advanceReadPos :: "BufferPool \<Rightarrow> BufferPool" where
  "advanceReadPos q = q \<lparr> readPos := (readPos q + 1) mod 2, used := used q - 1 \<rparr>"

definition signalNonEmpty :: "BufferPool \<Rightarrow> BufferPool" where
  "signalNonEmpty q = q \<lparr> nonEmptySignals := nonEmptySignals q + 1 \<rparr>"

definition signalNonFull :: "BufferPool \<Rightarrow> BufferPool" where
  "signalNonFull q = q \<lparr> nonFullSignals := nonFullSignals q + 1 \<rparr>"

section \<open>Memory writes\<close>

text \<open>
  \<open>store buf off bs\<close> writes the bytes \<open>bs\<close> into \<open>buf\<close> from offset \<open>off\<close> on;
  \<open>memcpy dst doff src soff n\<close> copies \<open>n\<close> bytes from \<open>src + soff\<close> to
  \<open>dst + doff\<close>. An access outside either region is a fault.
\<close>

definition store :: "byte list \<Rightarrow> int \<Rightarrow> byte list \<Rightarrow> fault + byte list" where
  "store buf off bs =
     (if off < 0 \<or> int (length buf) < off + int (length bs) then Inl OutOfBounds
      else Inr (take (nat off) buf @ bs @ drop (nat off + length bs) buf))"

definition memcpy :: "byte list \<Rightarrow> int \<Rightarrow> byte list \<Rightarrow> int \<Rightarrow> int \<Rightarrow> fault + byte list" where
  "memcpy dst doff src soff n =
     (if n < 0 \<or> doff < 0 \<or> soff < 0
         \<or> int (length dst) < doff + n \<or> int (length src) < soff + n
      then Inl OutOfBounds
      else Inr (take (nat doff) dst @ take (nat n) (drop (nat soff) src)
                @ drop (nat doff + nat n) dst))"

section \<open>The worker: DecodeThreadPool::work\<close>

text \<open>
  \<open>Media::transform(src, srcLen, dst, dstCapacity)\<close> belongs to a collaborator that
  is not among the sources; it is a parameter \<open>tr\<close> giving the bytes written to
  \<open>dst\<close> for the source bytes and the capacity. The interface promises exactly
  \<open>dstCapacity\<close> bytes, which is the predicate \<open>exact_transform\<close>.
\<close>

type_synonym transform = "byte list \<Rightarrow> int \<Rightarrow> byte list"

definition exact_transform :: "transform \<Rightarrow> int \<Rightarrow> bool" where
  "exact_transform tr ds = (\<forall>src. length (tr src ds) = nat ds)"

datatype 'a loop_result = Completed 'a | NullItem 'a | Fault fault

text \<open>
  The locked head of \<open>work(id)\<close> once \<open>_startSignaled[id]\<close> is non-zero: the
  signal is consumed and must then be zero.
\<close>

definition work_begin :: "nat \<Rightarrow> DecodeThreadPool \<Rightarrow> fault + DecodeThreadPool" where
  "work_begin wid p =
     (if \<not> (wid < length (startSignaled p)) then Inl OutOfBounds
      else
        (let v = startSignaled p ! wid - 1 in
         if v \<noteq> 0 then Inl AssertionFailed
         else Inr (p \<lparr> startSignaled := (startSignaled p)[wid := v] \<rparr>)))"

text \<open>
  The data loop \<open>for (int i = start; i < end; i++)\<close>: a null item ends the call at
  once; otherwise the transform writes at \<open>dataBuf\<close>, which then advances by
  \<open>_datumSize\<close>.
\<close>

function work_data ::
  "transform \<Rightarrow> Buffer \<Rightarrow> int \<Rightarrow> int \<Rightarrow> int \<Rightarrow> int \<Rightarrow> byte list \<Rightarrow> byte list loop_result" where
  "work_data tr inData dsz i endI dataBuf out =
     (if i < endI then
        (case getItem inData i of
           None \<Rightarrow> NullItem out
         | Some item \<Rightarrow>
             (case store out dataBuf (tr (item_bytes inData item) dsz) of
                Inl f \<Rightarrow> Fault f
              | Inr out' \<Rightarrow> work_data tr inData dsz (i + 1) endI (dataBuf + dsz) out'))
      else Completed out)"
  by pat_completeness auto
termination
  by (relation "measure (\<lambda>(tr, inData, dsz, i, endI, dataBuf, out). nat (endI - i))") auto

text \<open>
  The targets: the pointer to target item \<open>start\<close>, the assertion on its size, and
  one \<open>memcpy\<close> of \<open>_targetSpans[id]\<close> bytes. A null pointer leaves the size at 0.
\<close>

definition work_targets :: "nat \<Rightarrow> DecodeThreadPool \<Rightarrow> Buffer \<Rightarrow> byte list \<Rightarrow> fault + byte list" where
  "work_targets wid p inTargets outT =
     (case getItem inTargets (startInds p ! wid) of
        None \<Rightarrow> (if 0 \<noteq> targetSize p then Inl AssertionFailed else Inl NullPointer)
      | Some item \<Rightarrow>
          (if int (snd item) \<noteq> targetSize p then Inl AssertionFailed
           else memcpy outT (targetOffsets p ! wid) (data inTargets) (int (fst item))
                       (targetSpans p ! wid)))"

text \<open>The part of \<open>work(id)\<close> that runs without the lock.\<close>

definition work_decode ::
  "transform \<Rightarrow> nat \<Rightarrow> DecodeThreadPool \<Rightarrow> BufferPair \<Rightarrow> BufferPair \<Rightarrow> BufferPair loop_result" where
  "work_decode tr wid p inputBuf outBuf =
     (if \<not> (wid < length (startInds p)) then Fault OutOfBounds
      else
        (case work_data tr (fst inputBuf) (datumSize p) (startInds p ! wid) (endInds p ! wid)
                (dataOffsets p ! wid) (data (fst outBuf)) of
           Fault f \<Rightarrow> Fault f
         | NullItem d \<Rightarrow> NullItem ((fst outBuf) \<lparr> data := d \<rparr>, snd outBuf)
         | Completed d \<Rightarrow>
             (case work_targets wid p (snd inputBuf) (data (snd outBuf)) of
                Inl f \<Rightarrow> Fault f
              | Inr t \<Rightarrow> Completed ((fst outBuf) \<lparr> data := d \<rparr>, (snd outBuf) \<lparr> data := t \<rparr>))))"

text \<open>The locked tail of \<open>work(id)\<close>.\<close>

definition work_end :: "DecodeThreadPool \<Rightarrow> fault + DecodeThreadPool" where
  "work_end p =
     (let e = endSignaled p + 1 in
      if \<not> (e \<le> count p) then Inl AssertionFailed
      else Inr (p \<lparr> endSignaled := e \<rparr>))"

text \<open>
  How a call leaves: it returns, it blocks on a condition variable, it throws, or it
  aborts on a fault.
\<close>

datatype 'r exit = Return 'r | Blocked | Throw | Abort fault

text \<open>
  One call of \<open>work(id)\<close> from beginning to end, on the pool, the input pair
  \<open>*_inputBuf\<close> and the decode pool \<open>_out\<close>.
\<close>

definition work ::
  "transform \<Rightarrow> nat \<Rightarrow> BufferPair \<Rightarrow> DecodeThreadPool \<times> BufferPool
     \<Rightarrow> (DecodeThreadPool \<times> BufferPool) \<times> unit exit" where
  "work tr wid inputBuf st =
     (let p = fst st; out = snd st in
      if wid < length (startSignaled p) \<and> startSignaled p ! wid = 0 then (st, Blocked)
      else
        (case work_begin wid p of
           Inl f \<Rightarrow> (st, Abort f)
         | Inr p1 \<Rightarrow>
             (case work_decode tr wid p1 inputBuf (getForWrite out) of
                Fault f \<Rightarrow> ((p1, out), Abort f)
              | NullItem ob \<Rightarrow> ((p1, putForWrite out ob), Return ())
              | Completed ob \<Rightarrow>
                  (case work_end p1 of
                     Inl f \<Rightarrow> ((p1, putForWrite out ob), Abort f)
                   | Inr p2 \<Rightarrow> ((p2, putForWrite out ob), Return ())))))"

section \<open>The manager: DecodeThreadPool::produce\<close>

text \<open>
  Modelled from the spec: \<open>Matrix<char>::transpose(data, rows, cols)\<close> is declared in a
  header that is not among the sources. The region is read as \<open>rows\<close> rows of \<open>cols\<close>
  bytes and becomes \<open>cols\<close> rows of \<open>rows\<close> bytes: the byte at row \<open>r\<close>, column
  \<open>c\<close> moves to row \<open>c\<close>, column \<open>r\<close>.
\<close>

definition Matrix_transpose :: "byte list \<Rightarrow> int \<Rightarrow> int \<Rightarrow> fault + byte list" where
  "Matrix_transpose d rows cols =
     (if rows < 0 \<or> cols < 0 \<or> int (length d) < rows * cols then Inl OutOfBounds
      else Inr (map (\<lambda>k. d ! ((k mod nat rows) * nat cols + k div nat rows))
                    [0 ..< nat rows * nat cols]
                @ drop (nat rows * nat cols) d))"

text \<open>
  The device is a collaborator; what it receives is kept as the list of its copy calls,
  each with the slot and the bytes handed over.
\<close>

datatype dev_event = CopyData int "byte list" | CopyLabels int "byte list"

text \<open>The dispatch of \<open>produce\<close>: every start signal is set to 1.\<close>

definition produce_dispatch :: "DecodeThreadPool \<Rightarrow> DecodeThreadPool" where
  "produce_dispatch p = p \<lparr> startSignaled := map (\<lambda>_. 1) (startSignaled p) \<rparr>"

text \<open>
  The rest of \<open>produce\<close> once \<open>_endSignaled < _count\<close> is false: the counter is
  reset, the data half transposed, both halves copied to the device slot
  \<open>_bufferIndex\<close>, the index toggled, the write cursor advanced and \<open>nonEmpty\<close>
  signalled.
\<close>

definition produce_finish ::
  "DecodeThreadPool \<times> BufferPool \<times> dev_event list
     \<Rightarrow> fault + (DecodeThreadPool \<times> BufferPool \<times> dev_event list)" where
  "produce_finish st =
     (let p = fst st; out = fst (snd st); dev = snd (snd st);
          p1 = p \<lparr> endSignaled := 0 \<rparr>;
          outBuf = getForWrite out
      in case Matrix_transpose (data (fst outBuf)) (batchSize p1) (datumSize p1) of
           Inl f \<Rightarrow> Inl f
         | Inr d \<Rightarrow>
             (let outBuf' = ((fst outBuf) \<lparr> data := d \<rparr>, snd outBuf);
                  dev' = dev @ [CopyData (bufferIndex p1) (data (fst outBuf')),
                                CopyLabels (bufferIndex p1) (data (snd outBuf'))];
                  p2 = p1 \<lparr> bufferIndex := (if bufferIndex p1 = 0 then 1 else 0) \<rparr>
              in Inr (p2, signalNonEmpty (advanceWritePos (putForWrite out outBuf')), dev')))"

text \<open>
  The places in \<open>Loader::start\<close> and in the calls it makes at which an object is
  created with \<open>new\<close>: the four \<open>new\<close> expressions of its \<open>try\<close> block, the
  \<open>new thread\<close> for worker \<open>i\<close> and for the manager in \<open>DecodeThreadPool::start\<close>,
  and the creation of the reader's thread in \<open>ThreadPool::start\<close>. A run of
  \<open>start\<close> is given the list \<open>failing\<close> of the sites at which the creation throws.
\<close>

datatype alloc_site =
  NewReadBufs | NewReadThread | NewDecodeBufs | NewDecodeThreads
| NewWorkerThread nat | NewManagerThread | NewReaderThread

text \<open>
  \<open>DecodeThreadPool::start\<close>: the loop \<open>for (int i = 0; i < _count; i++)\<close> creates
  one thread per worker and appends it to \<open>_threads\<close>, then the manager thread is
  created. No exception is caught here: a creation that throws ends the call, and the
  threads created before it keep running.
\<close>

fun start_workers ::
  "alloc_site list \<Rightarrow> nat list \<Rightarrow> DecodeThreadPool \<Rightarrow> DecodeThreadPool \<times> unit exit" where
  "start_workers failing [] p = (p, Return ())"
| "start_workers failing (i # rest) p =
     (if NewWorkerThread i \<in> set failing then (p, Throw)
      else start_workers failing rest (p \<lparr> threads := threads p + 1 \<rparr>))"

definition DecodeThreadPool_start ::
  "alloc_site list \<Rightarrow> DecodeThreadPool \<Rightarrow> DecodeThreadPool \<times> unit exit" where
  "DecodeThreadPool_start failing p =
     (let r = start_workers failing [0 ..< nat (count p)] p in
      case snd r of
        Return u \<Rightarrow>
          if NewManagerThread \<in> set failing then (fst r, Throw)
          else ((fst r) \<lparr> manager := True \<rparr>, Return ())
      | _ \<Rightarrow> (fst r, Throw))"

section \<open>The pipeline between dispatch and join\<close>

text \<open>
  Workers and manager run as threads. A thread is at a program location; a step is what
  one thread does between two synchronisation points. The locked regions of \<open>work\<close>
  and \<open>produce\<close> are one step each. The lock-free section of a worker is one step
  as well: it reads the input pair, which nobody writes while a batch is being decoded,
  and writes the output pair. A fault ends the process, so a faulting thread has no step.
  The shutdown path (\<open>stop\<close>) is not part of the relation.
\<close>

datatype wstate = W_Init | W_Idle | W_Busy | W_Signal

datatype mstate = M_Await | M_Dispatched

record sys =
  pool :: DecodeThreadPool
  outPool :: BufferPool
  inputBuf :: "BufferPair option"
  workers :: "wstate list"
  mgr :: mstate
  device :: "dev_event list"

text \<open>
  \<open>W_Init\<close>: the thread exists and has not yet run the head of \<open>run\<close>.
  \<open>W_Idle\<close>: inside \<open>work\<close>, waiting for its start signal. \<open>W_Busy\<close>: the signal is
  consumed, the lock-free section is ahead. \<open>W_Signal\<close>: the section is complete, the
  increment of \<open>_endSignaled\<close> is ahead. \<open>M_Await\<close>: the manager is before the
  dispatch of \<open>produce\<close>; \<open>M_Dispatched\<close>: it waits for \<open>_endSignaled < _count\<close>
  to become false. The consumer releases a slot of the decode pool as \<open>next\<close> does.
\<close>

inductive step :: "transform \<Rightarrow> sys \<Rightarrow> sys \<Rightarrow> bool" for tr :: transform where
  worker_init:
    "w < length (workers s) \<Longrightarrow> workers s ! w = W_Init \<Longrightarrow> run_init w (pool s) = Inr p'
     \<Longrightarrow> step tr s (s \<lparr> pool := p', workers := (workers s)[w := W_Idle] \<rparr>)"
| worker_begin:
    "w < length (workers s) \<Longrightarrow> workers s ! w = W_Idle
     \<Longrightarrow> \<not> (w < length (startSignaled (pool s)) \<and> startSignaled (pool s) ! w = 0)
     \<Longrightarrow> work_begin w (pool s) = Inr p'
     \<Longrightarrow> step tr s (s \<lparr> pool := p', workers := (workers s)[w := W_Busy] \<rparr>)"
| worker_decode:
    "w < length (workers s) \<Longrightarrow> workers s ! w = W_Busy \<Longrightarrow> inputBuf s = Some inp
     \<Longrightarrow> work_decode tr w (pool s) inp (getForWrite (outPool s)) = Completed ob
     \<Longrightarrow> step tr s (s \<lparr> outPool := putForWrite (outPool s) ob,
                         workers := (workers s)[w := W_Signal] \<rparr>)"
| worker_null:
    "w < length (workers s) \<Longrightarrow> workers s ! w = W_Busy \<Longrightarrow> inputBuf s = Some inp
     \<Longrightarrow> work_decode tr w (pool s) inp (getForWrite (outPool s)) = NullItem ob
     \<Longrightarrow> step tr s (s \<lparr> outPool := putForWrite (outPool s) ob,
                         workers := (workers s)[w := W_Idle] \<rparr>)"
| worker_end:
    "w < length (workers s) \<Longrightarrow> workers s ! w = W_Signal \<Longrightarrow> work_end (pool s) = Inr p'
     \<Longrightarrow> step tr s (s \<lparr> pool := p', workers := (workers s)[w := W_Idle] \<rparr>)"
| manager_dispatch:
    "mgr s = M_Await \<Longrightarrow> \<not> pool_full (outPool s)
     \<Longrightarrow> step tr s (s \<lparr> pool := produce_dispatch (pool s), inputBuf := Some inp,
                         mgr := M_Dispatched \<rparr>)"
| manager_finish:
    "mgr s = M_Dispatched \<Longrightarrow> \<not> (endSignaled (pool s) < count (pool s))
     \<Longrightarrow> produce_finish (pool s, outPool s, device s) = Inr (p', out', dev')
     \<Longrightarrow> step tr s (s \<lparr> pool := p', outPool := out', device := dev', mgr := M_Await \<rparr>)"
| consumer_release:
    "\<not> pool_empty (outPool s)
     \<Longrightarrow> step tr s (s \<lparr> outPool := signalNonFull (advanceReadPos (outPool s)) \<rparr>)"

text \<open>
  The state that \<open>Loader::start\<close> leaves behind for a pool of \<open>N\<close> workers when it
  returns 0: the pool as constructed and started, the decode pool as allocated with the
  two 32-bit products as its sizes, \<open>_inputBuf\<close> null.
\<close>

definition initial :: "int \<Rightarrow> int \<Rightarrow> int \<Rightarrow> int \<Rightarrow> bool \<Rightarrow> fault + sys" where
  "initial N bs ds ts pin =
     (case DecodeThreadPool_ctor N bs ds ts of
        Inl f \<Rightarrow> Inl f
      | Inr p \<Rightarrow>
          Inr \<lparr> pool = fst (DecodeThreadPool_start [] p),
                outPool = BufferPool_ctor (c_mul bs ds) (c_mul bs ts) pin,
                inputBuf = None,
                workers = replicate (nat N) W_Init,
                mgr = M_Await,
                device = [] \<rparr>)"

definition reachable :: "transform \<Rightarrow> sys \<Rightarrow> sys \<Rightarrow> bool" where
  "reachable tr s0 s = (step tr)\<^sup>*\<^sup>* s0 s"

section \<open>ReadThread\<close>

text \<open>
  The members \<open>_count\<close> and \<open>_done\<close> that \<open>ReadThread\<close> inherits from
  \<open>ThreadPool\<close>, and the number of threads it has started. The constructor passes
  the count 1 to the base class and asserts it.
\<close>

record ReadThread =
  rt_count :: int
  rt_doneFlag :: bool
  rt_threads :: nat

definition ReadThread_ctor :: "fault + ReadThread" where
  "ReadThread_ctor =
     (let t = \<lparr> rt_count = 1, rt_doneFlag = False, rt_threads = 0 \<rparr>
      in if rt_count t \<noteq> 1 then Inl AssertionFailed else Inr t)"

text \<open>
  Modelled from the spec: \<open>ThreadPool::start\<close> is declared in a header that is not
  among the sources; it starts the \<open>_count\<close> threads of the pool. The creation of
  the reader's thread is an allocation site, as in \<open>DecodeThreadPool::start\<close>.
\<close>

definition ThreadPool_start :: "alloc_site list \<Rightarrow> ReadThread \<Rightarrow> ReadThread \<times> unit exit" where
  "ThreadPool_start failing t =
     (if NewReaderThread \<in> set failing then (t, Throw)
      else (t \<lparr> rt_threads := rt_threads t + nat (rt_count t) \<rparr>, Return ()))"

text \<open>
  \<open>ReadThread::produce\<close>. The reader is a collaborator: \<open>rd\<close> gives, for the pair
  at the write cursor, the result of \<open>read\<close> and the pair as the reader leaves it.
\<close>

definition ReadThread_produce ::
  "(BufferPair \<Rightarrow> int \<times> BufferPair) \<Rightarrow> ReadThread \<times> BufferPool
     \<Rightarrow> (ReadThread \<times> BufferPool) \<times> unit exit" where
  "ReadThread_produce rd st =
     (let t = fst st; out = snd st in
      if pool_full out then (st, Blocked)
      else
        (let r = rd (getForWrite out);
             result = fst r;
             out1 = putForWrite out (snd r)
         in if result = - 1 then ((t \<lparr> rt_doneFlag := True \<rparr>, out1), Throw)
            else ((t, signalNonEmpty (advanceWritePos out1)), Return ())))"

section \<open>Loader\<close>

datatype device_type = CPU | GPU

record Loader =
  first :: bool
  L_batchSize :: int
  L_datumSize :: int
  L_targetSize :: int
  readBufs :: "BufferPool option"
  decodeBufs :: "BufferPool option"
  readThread :: "ReadThread option"
  decodeThreads :: "DecodeThreadPool option"
  deviceType :: device_type

text \<open>The constructor: \<open>_first\<close> is true and the four owned pointers are null.\<close>

definition Loader_ctor :: "int \<Rightarrow> int \<Rightarrow> int \<Rightarrow> device_type \<Rightarrow> Loader" where
  "Loader_ctor bs ds ts dt =
     \<lparr> first = True, L_batchSize = bs, L_datumSize = ds, L_targetSize = ts,
       readBufs = None, decodeBufs = None, readThread = None, decodeThreads = None,
       deviceType = dt \<rparr>"

text \<open>
  \<open>Loader::start\<close>. A \<open>new\<close> of the \<open>try\<close> block that throws leaves its member
  unassigned, and the handler returns -1. The sizes of the two pools are the 32-bit
  products \<open>_batchSize * _datumSize\<close> and \<open>_batchSize * _targetSize\<close>. The calls
  \<open>_decodeThreads->start()\<close> and \<open>_readThread->start()\<close> follow the \<open>try\<close> block:
  an exception thrown by the creation of a thread is not caught and leaves \<open>start\<close>.
\<close>

definition Loader_start :: "alloc_site list \<Rightarrow> int \<Rightarrow> Loader \<Rightarrow> Loader \<times> int exit" where
  "Loader_start failing numCores l0 =
     (let l = l0 \<lparr> first := True \<rparr> in
      if NewReadBufs \<in> set failing then (l, Return (- 1))
      else
        (let l1 = l \<lparr> readBufs := Some (BufferPool_ctor (c_mul (L_batchSize l) (L_datumSize l))
                                          (c_mul (L_batchSize l) (L_targetSize l)) False) \<rparr> in
         if NewReadThread \<in> set failing then (l1, Return (- 1))
         else
           (case ReadThread_ctor of
              Inl f \<Rightarrow> (l1, Abort f)
            | Inr rt \<Rightarrow>
                (let l2 = l1 \<lparr> readThread := Some rt \<rparr>;
                     pin = (deviceType l2 \<noteq> CPU) in
                 if NewDecodeBufs \<in> set failing then (l2, Return (- 1))
                 else
                   (let l3 = l2 \<lparr> decodeBufs :=
                                Some (BufferPool_ctor (c_mul (L_batchSize l) (L_datumSize l))
                                        (c_mul (L_batchSize l) (L_targetSize l)) pin) \<rparr> in
                    case start_threadCount (L_batchSize l3) numCores of
                      Inl f \<Rightarrow> (l3, Abort f)
                    | Inr threadCount \<Rightarrow>
                        if NewDecodeThreads \<in> set failing then (l3, Return (- 1))
                        else
                          (case DecodeThreadPool_ctor threadCount (L_batchSize l3)
                                  (L_datumSize l3) (L_targetSize l3) of
                             Inl f \<Rightarrow> (l3, Abort f)
                           | Inr dp \<Rightarrow>
                               (let d = DecodeThreadPool_start failing dp;
                                    l4 = l3 \<lparr> decodeThreads := Some (fst d) \<rparr>
                                in case snd d of
                                     Return u \<Rightarrow>
                                       (let r = ThreadPool_start failing rt;
                                            l5 = l4 \<lparr> readThread := Some (fst r) \<rparr>
                                        in case snd r of
                                             Return v \<Rightarrow> (l5, Return 0)
                                           | _ \<Rightarrow> (l5, Throw))
                                   | _ \<Rightarrow> (l4, Throw))))))))"

text \<open>
  \<open>try_failure failing\<close>: one of the four allocations of the \<open>try\<close> block fails.
  \<open>thread_failure failing N\<close>: the creation of one of the \<open>N\<close> worker threads, of the
  manager thread or of the reader's thread fails.
\<close>

definition try_failure :: "alloc_site list \<Rightarrow> bool" where
  "try_failure failing \<longleftrightarrow>
     NewReadBufs \<in> set failing \<or> NewReadThread \<in> set failing
   \<or> NewDecodeBufs \<in> set failing \<or> NewDecodeThreads \<in> set failing"

definition thread_failure :: "alloc_site list \<Rightarrow> int \<Rightarrow> bool" where
  "thread_failure failing N \<longleftrightarrow>
     (\<exists>i \<in> set [0 ..< nat N]. NewWorkerThread i \<in> set failing)
   \<or> NewManagerThread \<in> set failing \<or> NewReaderThread \<in> set failing"

text \<open>
  The zero-argument \<open>next\<close>: the first call after \<open>start\<close> only clears \<open>_first\<close>,
  a later call releases the previous minibatch; then the call waits while the decode
  pool is empty.
\<close>

definition Loader_next :: "Loader \<Rightarrow> Loader \<times> unit exit" where
  "Loader_next l =
     (case decodeBufs l of
        None \<Rightarrow> (l, Abort NullPointer)
      | Some q \<Rightarrow>
          (let l1 = (if first l = True then l \<lparr> first := False \<rparr>
                     else l \<lparr> decodeBufs := Some (signalNonFull (advanceReadPos q)) \<rparr>)
           in case decodeBufs l1 of
                None \<Rightarrow> (l1, Abort NullPointer)
              | Some q1 \<Rightarrow> if pool_empty q1 then (l1, Blocked) else (l1, Return ())))"

text \<open>
  The two-argument \<open>next\<close>, used for testing: it waits while the decode pool is
  empty, copies \<open>dataBuf->_size\<close> and \<open>targetsBuf->_size\<close> bytes out of the pair at
  the read cursor, advances the read cursor and signals \<open>nonFull\<close>.
\<close>

definition Loader_next2 ::
  "Buffer \<times> Buffer \<Rightarrow> Loader \<Rightarrow> (Loader \<times> Buffer \<times> Buffer) \<times> unit exit" where
  "Loader_next2 dst l =
     (let dataBuf = fst dst; targetsBuf = snd dst in
      case decodeBufs l of
        None \<Rightarrow> ((l, dst), Abort NullPointer)
      | Some q \<Rightarrow>
          if pool_empty q then ((l, dst), Blocked)
          else
            (case memcpy (data dataBuf) 0 (data (fst (getForRead q))) 0
                         (int (length (data dataBuf))) of
               Inl f \<Rightarrow> ((l, dst), Abort f)
             | Inr d \<Rightarrow>
                 (case memcpy (data targetsBuf) 0 (data (snd (getForRead q))) 0
                              (int (length (data targetsBuf))) of
                    Inl f \<Rightarrow> ((l, dataBuf \<lparr> data := d \<rparr>, targetsBuf), Abort f)
                  | Inr t \<Rightarrow>
                      ((l \<lparr> decodeBufs := Some (signalNonFull (advanceReadPos q)) \<rparr>,
                        dataBuf \<lparr> data := d \<rparr>, targetsBuf \<lparr> data := t \<rparr>),
                       Return ()))))"

section \<open>Notions used in the statements\<close>

text \<open>
  What the constructor establishes and no later operation changes: its two assertions
  and one vector entry per worker.
\<close>

definition ctor_inv :: "DecodeThreadPool \<Rightarrow> bool" where
  "ctor_inv p \<longleftrightarrow>
     itemsPerThread p * count p \<ge> batchSize p
   \<and> itemsPerThread p * (count p - 1) < batchSize p
   \<and> length (startSignaled p) = nat (count p)
   \<and> length (startInds p) = nat (count p)
   \<and> length (endInds p) = nat (count p)
   \<and> length (dataOffsets p) = nat (count p)
   \<and> length (targetOffsets p) = nat (count p)
   \<and> length (targetSpans p) = nat (count p)"

text \<open>
  The partition in the words of the specification: worker \<open>id\<close> has
  \<open>startInd = id * items_per_thread\<close> and
  \<open>endInd = min((id + 1) * items_per_thread, batchSize)\<close>; its byte interval in a half
  whose items have \<open>sz\<close> bytes is \<open>[startInd * sz, endInd * sz)\<close>.
\<close>

definition spec_startInd :: "DecodeThreadPool \<Rightarrow> nat \<Rightarrow> int" where
  "spec_startInd p w = int w * itemsPerThread p"

definition spec_endInd :: "DecodeThreadPool \<Rightarrow> nat \<Rightarrow> int" where
  "spec_endInd p w = min ((int w + 1) * itemsPerThread p) (batchSize p)"

definition spec_interval :: "DecodeThreadPool \<Rightarrow> int \<Rightarrow> nat \<Rightarrow> int set" where
  "spec_interval p sz w = {spec_startInd p w * sz ..< spec_endInd p w * sz}"

text \<open>
  \<open>unchanged_outside lo hi xs ys\<close>: the region \<open>ys\<close> has the size of \<open>xs\<close> and
  differs from it at most at the offsets in \<open>[lo, hi)\<close>.
\<close>

definition unchanged_outside :: "int \<Rightarrow> int \<Rightarrow> byte list \<Rightarrow> byte list \<Rightarrow> bool" where
  "unchanged_outside lo hi xs ys \<longleftrightarrow>
     length ys = length xs
   \<and> (\<forall>j < length xs. \<not> (lo \<le> int j \<and> int j < hi) \<longrightarrow> ys ! j = xs ! j)"

definition region :: "byte list \<Rightarrow> int \<Rightarrow> int \<Rightarrow> byte list" where
  "region xs off n = take (nat n) (drop (nat off) xs)"

text \<open>
  The decoded form of data item \<open>i\<close> of an input half, and target \<open>i\<close> of a target
  half.
\<close>

definition decoded_item :: "transform \<Rightarrow> Buffer \<Rightarrow> int \<Rightarrow> int \<Rightarrow> byte list" where
  "decoded_item tr inData ds i =
     (case getItem inData i of None \<Rightarrow> [] | Some item \<Rightarrow> tr (item_bytes inData item) ds)"

definition target_item :: "Buffer \<Rightarrow> int \<Rightarrow> byte list" where
  "target_item inTargets i =
     (case getItem inTargets i of None \<Rightarrow> [] | Some item \<Rightarrow> item_bytes inTargets item)"

text \<open>
  The reader's side of the contract for the target half of an input pair: it holds
  \<open>bs\<close> targets of \<open>ts\<close> bytes each, laid out one after the other from offset 0.
\<close>

definition targets_dense :: "BufferPair \<Rightarrow> int \<Rightarrow> int \<Rightarrow> bool" where
  "targets_dense inp bs ts \<longleftrightarrow>
     (\<forall>i. 0 \<le> i \<and> i < bs \<longrightarrow> getItem (snd inp) i = Some (nat (i * ts), nat ts))
   \<and> bs * ts \<le> int (length (data (snd inp)))"

text \<open>A transform for examples: the source bytes, cut or padded with zeros.\<close>

definition pad_transform :: transform where
  "pad_transform src n = take (nat n) (src @ replicate (nat n) 0)"

text \<open>Worker \<open>w\<close> has filled in its vector entries, and they are those of the partition.\<close>

definition geometry :: "DecodeThreadPool \<Rightarrow> nat \<Rightarrow> bool" where
  "geometry p w \<longleftrightarrow>
     w < length (startInds p)
   \<and> startInds p ! w = spec_startInd p w
   \<and> endInds p ! w = spec_endInd p w
   \<and> dataOffsets p ! w = spec_startInd p w * datumSize p
   \<and> targetOffsets p ! w = spec_startInd p w * targetSize p
   \<and> targetSpans p ! w = (spec_endInd p w - spec_startInd p w) * targetSize p"

text \<open>
  The same with the offsets and the span as \<open>run\<close> computes them, by 32-bit products;
  \<open>int_sized p\<close> says that the two pool sizes \<open>_batchSize * _datumSize\<close> and
  \<open>_batchSize * _targetSize\<close> are non-negative values of \<open>int\<close>, in which case the
  32-bit products are the exact ones.
\<close>

definition run_done :: "DecodeThreadPool \<Rightarrow> nat \<Rightarrow> bool" where
  "run_done p w \<longleftrightarrow>
     w < length (startInds p)
   \<and> startInds p ! w = spec_startInd p w
   \<and> endInds p ! w = spec_endInd p w
   \<and> dataOffsets p ! w = c_mul (spec_startInd p w) (datumSize p)
   \<and> targetOffsets p ! w = c_mul (spec_startInd p w) (targetSize p)
   \<and> targetSpans p ! w = c_mul (spec_endInd p w - spec_startInd p w) (targetSize p)"

definition int_sized :: "DecodeThreadPool \<Rightarrow> bool" where
  "int_sized p \<longleftrightarrow>
     0 \<le> datumSize p \<and> 0 \<le> targetSize p
   \<and> batchSize p * datumSize p < 2147483648 \<and> batchSize p * targetSize p < 2147483648"

section \<open>A concrete batch\<close>

text \<open>
  Scenario S1 of the specification: four items of two bytes, four targets of one byte,
  decoded by two workers.
\<close>

definition ex_input :: BufferPair where
  "ex_input =
     (\<lparr> data = [0x10, 0x11, 0x20, 0x21, 0x30, 0x31, 0x40, 0x41],
        items = [(0, 2), (2, 2), (4, 2), (6, 2)] \<rparr>,
      \<lparr> data = [0xA0, 0xA1, 0xA2, 0xA3],
        items = [(0, 1), (1, 1), (2, 1), (3, 1)] \<rparr>)"

definition ex_pool :: DecodeThreadPool where
  "ex_pool = projr (DecodeThreadPool_ctor 2 4 2 1)"

definition ex_out :: BufferPair where
  "ex_out = getForWrite (BufferPool_ctor (4 * 2) (4 * 1) False)"

text \<open>
  The same batch when the reader appended only three of the four items to the data half,
  and the pool after both workers have run the head of \<open>run\<close> and the manager has
  set the start signals.
\<close>

definition ex_short_input :: BufferPair where
  "ex_short_input =
     (\<lparr> data = [0x10, 0x11, 0x20, 0x21, 0x30, 0x31, 0, 0],
        items = [(0, 2), (2, 2), (4, 2)] \<rparr>,
      \<lparr> data = [0xA0, 0xA1, 0xA2, 0xA3],
        items = [(0, 1), (1, 1), (2, 1), (3, 1)] \<rparr>)"

definition ex_dispatched :: DecodeThreadPool where
  "ex_dispatched = produce_dispatch (projr (run_init 1 (projr (run_init 0 ex_pool))))"

definition ex_decode_pool :: BufferPool where
  "ex_decode_pool = BufferPool_ctor (4 * 2) (4 * 1) False"

text \<open>A reader whose \<open>read\<close> fails, and one that succeeds, both leaving the pair as it is.\<close>

definition ex_failing_reader :: "BufferPair \<Rightarrow> int \<times> BufferPair" where
  "ex_failing_reader bp = (- 1, bp)"

text \<open>
  A sequence of calls of the zero-argument \<open>next\<close>. Between two calls the producer
  side may have changed the decode pool: \<open>env n\<close> is what it did before call \<open>n\<close>
  (counting from 0).
\<close>

fun next_calls :: "(nat \<Rightarrow> BufferPool \<Rightarrow> BufferPool) \<Rightarrow> nat \<Rightarrow> Loader \<Rightarrow> Loader" where
  "next_calls env 0 l = l"
| "next_calls env (Suc n) l =
     (let l1 = next_calls env n l;
          l2 = l1 \<lparr> decodeBufs := map_option (env n) (decodeBufs l1) \<rparr>
      in fst (Loader_next l2))"

text \<open>The producer side moves neither the read cursor nor the \<open>nonFull\<close> condition.\<close>

definition producer_side :: "(nat \<Rightarrow> BufferPool \<Rightarrow> BufferPool) \<Rightarrow> bool" where
  "producer_side env \<longleftrightarrow>
     (\<forall>n q. readPos (env n q) = readPos q \<and> nonFullSignals (env n q) = nonFullSignals q)"

definition ex_producer :: "nat \<Rightarrow> BufferPool \<Rightarrow> BufferPool" where
  "ex_producer n q = signalNonEmpty (advanceWritePos q)"

section \<open>Invariants of the pipeline\<close>

text \<open>
  The constants of the pool and the shape of the decode pool: two pairs whose halves
  have the sizes allocated by \<open>Loader::start\<close>, and cursors inside the ring.
\<close>

definition inv_static :: "int \<Rightarrow> int \<Rightarrow> int \<Rightarrow> int \<Rightarrow> sys \<Rightarrow> bool" where
  "inv_static N bs ds ts s \<longleftrightarrow>
     count (pool s) = N \<and> batchSize (pool s) = bs
   \<and> datumSize (pool s) = ds \<and> targetSize (pool s) = ts
   \<and> ctor_inv (pool s) \<and> length (workers s) = nat N
   \<and> length (bufs (outPool s)) = 2 \<and> writePos (outPool s) < 2
   \<and> (\<forall>k < 2. length (data (fst (bufs (outPool s) ! k))) = nat (c_mul bs ds)
              \<and> length (data (snd (bufs (outPool s) ! k))) = nat (c_mul bs ts))
   \<and> (\<forall>w < length (workers s). workers s ! w \<noteq> W_Init \<longrightarrow> run_done (pool s) w)"

text \<open>
  The start signals and the end counter. \<open>finished s\<close> is the set of workers that
  have consumed their start signal and are back at the wait for the next one.
  \<open>wok m st v\<close> relates the location \<open>st\<close> of a worker and the value \<open>v\<close> of its
  start signal to the location \<open>m\<close> of the manager: the signal is 0 or 1, it is 0
  while the worker is past its consumption and while the manager has not dispatched,
  and it is 1 after a dispatch for a worker that has not yet entered \<open>work\<close>.
\<close>

definition finished :: "sys \<Rightarrow> nat set" where
  "finished s = {w. w < length (workers s) \<and> workers s ! w = W_Idle
                    \<and> startSignaled (pool s) ! w = 0}"

definition wok :: "mstate \<Rightarrow> wstate \<Rightarrow> int \<Rightarrow> bool" where
  "wok m st v \<longleftrightarrow>
     (v = 0 \<or> v = 1)
   \<and> (st = W_Busy \<or> st = W_Signal \<longrightarrow> v = 0)
   \<and> (m = M_Await \<longrightarrow> v = 0 \<and> (st = W_Init \<or> st = W_Idle))
   \<and> (m = M_Dispatched \<and> st = W_Init \<longrightarrow> v = 1)"

definition inv_signals :: "sys \<Rightarrow> bool" where
  "inv_signals s \<longleftrightarrow>
     0 \<le> endSignaled (pool s)
   \<and> (mgr s = M_Await \<longrightarrow> endSignaled (pool s) = 0)
   \<and> (mgr s = M_Dispatched \<longrightarrow> inputBuf s \<noteq> None)
   \<and> (\<forall>w < length (workers s). wok (mgr s) (workers s ! w) (startSignaled (pool s) ! w))"

text \<open>
  The device log: two copies per minibatch, both to the slot given by the number of the
  minibatch modulo 2, and \<open>_bufferIndex\<close> is the slot of the next minibatch.
\<close>

definition inv_device :: "sys \<Rightarrow> bool" where
  "inv_device s \<longleftrightarrow>
     even (length (device s))
   \<and> bufferIndex (pool s) = int ((length (device s) div 2) mod 2)
   \<and> (\<forall>k. 2 * k + 1 < length (device s) \<longrightarrow>
         (\<exists>d t. device s ! (2 * k) = CopyData (int (k mod 2)) d
              \<and> device s ! (2 * k + 1) = CopyLabels (int (k mod 2)) t))"

text \<open>
  \<open>present p inp w\<close>: the data half of the input pair holds every item of the range
  of worker \<open>w\<close>. \<open>completed s inp\<close>: the finished workers with that property.
  Between dispatch and join the end counter is at most the number of completed workers,
  and a worker about to increment it has all its items.
\<close>

definition present :: "DecodeThreadPool \<Rightarrow> BufferPair \<Rightarrow> nat \<Rightarrow> bool" where
  "present p inp w \<longleftrightarrow>
     (\<forall>i. spec_startInd p w \<le> i \<and> i < spec_endInd p w \<longrightarrow> getItem (fst inp) i \<noteq> None)"

definition completed :: "sys \<Rightarrow> BufferPair \<Rightarrow> nat set" where
  "completed s inp = {w. w \<in> finished s \<and> present (pool s) inp w}"

definition inv_count :: "sys \<Rightarrow> bool" where
  "inv_count s \<longleftrightarrow>
     (mgr s = M_Dispatched \<longrightarrow>
        (\<forall>inp. inputBuf s = Some inp \<longrightarrow>
           endSignaled (pool s) \<le> int (card (completed s inp))
         \<and> (\<forall>w < length (workers s). workers s ! w = W_Signal \<longrightarrow> present (pool s) inp w)))"

text \<open>
  \<open>slices_ok tr p inp ob w\<close>: in the output pair \<open>ob\<close> the slice of worker \<open>w\<close>
  of the data half holds the decoded items of its range in order, and its slice of the
  target half holds the targets of its range in order. Between dispatch and join this
  holds for every worker that has completed its lock-free section, provided the targets
  of the input pair are laid out densely.
\<close>

definition slices_ok :: "transform \<Rightarrow> DecodeThreadPool \<Rightarrow> BufferPair \<Rightarrow> BufferPair \<Rightarrow> nat \<Rightarrow> bool" where
  "slices_ok tr p inp ob w \<longleftrightarrow>
     region (data (fst ob)) (spec_startInd p w * datumSize p)
            ((spec_endInd p w - spec_startInd p w) * datumSize p)
       = concat (map (decoded_item tr (fst inp) (datumSize p))
                     [spec_startInd p w .. spec_endInd p w - 1])
   \<and> region (data (snd ob)) (spec_startInd p w * targetSize p)
            ((spec_endInd p w - spec_startInd p w) * targetSize p)
       = concat (map (target_item (snd inp)) [spec_startInd p w .. spec_endInd p w - 1])"

definition inv_content :: "transform \<Rightarrow> sys \<Rightarrow> bool" where
  "inv_content tr s \<longleftrightarrow>
     (mgr s = M_Dispatched \<longrightarrow>
        (\<forall>inp. inputBuf s = Some inp
               \<and> targets_dense inp (batchSize (pool s)) (targetSize (pool s)) \<longrightarrow>
           (\<forall>w < length (workers s).
              workers s ! w = W_Signal \<or> w \<in> completed s inp
              \<longrightarrow> slices_ok tr (pool s) inp (getForWrite (outPool s)) w)))"

section \<open>Schedules\<close>

text \<open>
  A schedule names the steps of a run one by one; \<open>exec\<close> performs the named step if
  the step relation allows it, \<open>run_schedule\<close> a whole schedule.
\<close>

datatype label =
    L_init nat | L_begin nat | L_decode nat | L_end nat
  | L_dispatch BufferPair | L_finish | L_release

fun exec :: "transform \<Rightarrow> label \<Rightarrow> sys \<Rightarrow> sys option" where
  "exec tr (L_init w) s =
     (if w < length (workers s) \<and> workers s ! w = W_Init then
        (case run_init w (pool s) of
           Inl f \<Rightarrow> None
         | Inr p' \<Rightarrow> Some (s \<lparr> pool := p', workers := (workers s)[w := W_Idle] \<rparr>))
      else None)"
| "exec tr (L_begin w) s =
     (if w < length (workers s) \<and> workers s ! w = W_Idle
         \<and> \<not> (w < length (startSignaled (pool s)) \<and> startSignaled (pool s) ! w = 0) then
        (case work_begin w (pool s) of
           Inl f \<Rightarrow> None
         | Inr p' \<Rightarrow> Some (s \<lparr> pool := p', workers := (workers s)[w := W_Busy] \<rparr>))
      else None)"
| "exec tr (L_decode w) s =
     (if w < length (workers s) \<and> workers s ! w = W_Busy then
        (case inputBuf s of
           None \<Rightarrow> None
         | Some inp \<Rightarrow>
             (case work_decode tr w (pool s) inp (getForWrite (outPool s)) of
                Fault f \<Rightarrow> None
              | NullItem ob \<Rightarrow> Some (s \<lparr> outPool := putForWrite (outPool s) ob,
                                          workers := (workers s)[w := W_Idle] \<rparr>)
              | Completed ob \<Rightarrow> Some (s \<lparr> outPool := putForWrite (outPool s) ob,
                                           workers := (workers s)[w := W_Signal] \<rparr>)))
      else None)"
| "exec tr (L_end w) s =
     (if w < length (workers s) \<and> workers s ! w = W_Signal then
        (case work_end (pool s) of
           Inl f \<Rightarrow> None
         | Inr p' \<Rightarrow> Some (s \<lparr> pool := p', workers := (workers s)[w := W_Idle] \<rparr>))
      else None)"
| "exec tr (L_dispatch inp) s =
     (if mgr s = M_Await \<and> \<not> pool_full (outPool s) then
        Some (s \<lparr> pool := produce_dispatch (pool s), inputBuf := Some inp,
                  mgr := M_Dispatched \<rparr>)
      else None)"
| "exec tr L_finish s =
     (if mgr s = M_Dispatched \<and> \<not> (endSignaled (pool s) < count (pool s)) then
        (case produce_finish (pool s, outPool s, device s) of
           Inl f \<Rightarrow> None
         | Inr r \<Rightarrow> Some (s \<lparr> pool := fst r, outPool := fst (snd r), device := snd (snd r),
                              mgr := M_Await \<rparr>))
      else None)"
| "exec tr L_release s =
     (if \<not> pool_empty (outPool s) then
        Some (s \<lparr> outPool := signalNonFull (advanceReadPos (outPool s)) \<rparr>)
      else None)"

fun run_schedule :: "transform \<Rightarrow> label list \<Rightarrow> sys \<Rightarrow> sys option" where
  "run_schedule tr [] s = Some s"
| "run_schedule tr (l # ls) s =
     (case exec tr l s of None \<Rightarrow> None | Some s' \<Rightarrow> run_schedule tr ls s')"

text \<open>
  Scenario S1 from start to the delivery of the first minibatch, worker 1 ahead of worker
  0; the same up to the point where both workers are done and the manager has not yet
  taken the batch; and the schedule in which the data half lacks its last item.
\<close>

definition ex_initial :: sys where
  "ex_initial = projr (initial 2 4 2 1 False)"

definition ex_schedule :: "label list" where
  "ex_schedule = [L_init 1, L_dispatch ex_input, L_begin 1, L_init 0, L_decode 1,
                  L_begin 0, L_end 1, L_decode 0, L_end 0, L_finish]"

definition ex_final :: sys where
  "ex_final = the (run_schedule pad_transform ex_schedule ex_initial)"

definition ex_joined :: sys where
  "ex_joined = the (run_schedule pad_transform (butlast ex_schedule) ex_initial)"

section \<open>Arithmetic of the partition\<close>

lemma sdiv_nonneg: "0 \<le> a \<Longrightarrow> 0 < b \<Longrightarrow> a sdiv b = a div b" for a b :: int
  by (simp add: signed_divide_int_def sgn_if)

lemma c_div_pos: "1 \<le> a \<Longrightarrow> 1 \<le> b \<Longrightarrow> c_div (a - 1) b = Inr ((a - 1) div b)"
  by (simp add: c_div_def sdiv_nonneg)

lemma ceil_lower: "1 \<le> c \<Longrightarrow> ((a - 1) div c) * c < a" for a c :: int
proof -
  assume c: "1 \<le> c"
  have "a - 1 = ((a - 1) div c) * c + (a - 1) mod c" by simp
  moreover have "0 \<le> (a - 1) mod c" using c by simp
  ultimately show ?thesis by linarith
qed

lemma ceil_upper: "1 \<le> c \<Longrightarrow> a \<le> ((a - 1) div c + 1) * c" for a c :: int
proof -
  assume c: "1 \<le> c"
  have "a - 1 = ((a - 1) div c) * c + (a - 1) mod c" by simp
  moreover have "(a - 1) mod c < c" using c by simp
  ultimately have "a - 1 < ((a - 1) div c) * c + c" by linarith
  thus ?thesis by (simp add: algebra_simps)
qed

lemma ceil_pos: "1 \<le> a \<Longrightarrow> 1 \<le> c \<Longrightarrow> 1 \<le> (a - 1) div c + 1" for a c :: int
  by (simp add: pos_imp_zdiv_nonneg_iff)

lemma ceil_le_self: "1 \<le> a \<Longrightarrow> 1 \<le> c \<Longrightarrow> (a - 1) div c + 1 \<le> a" for a c :: int
proof -
  assume a: "1 \<le> a" and c: "1 \<le> c"
  have "(a - 1) div c \<le> (a - 1) div 1"
    using a c by (intro zdiv_mono2) auto
  thus ?thesis by simp
qed

lemma ceil_real:
  "1 \<le> a \<Longrightarrow> 1 \<le> c \<Longrightarrow> (a - 1) div c + 1 = \<lceil>real_of_int a / real_of_int c\<rceil>"
  for a c :: int
proof -
  assume a: "1 \<le> a" and c: "1 \<le> c"
  let ?q = "(a - 1) div c + 1"
  have cpos: "0 < real_of_int c" using c by simp
  have 1: "(?q - 1) * c < a" using ceil_lower[OF c, of a] by simp
  have 2: "a \<le> ?q * c" by (rule ceil_upper[OF c])
  have "real_of_int ((?q - 1) * c) < real_of_int a" using 1 by linarith
  hence l: "real_of_int ?q - 1 < real_of_int a / real_of_int c"
    using cpos by (simp add: pos_less_divide_eq)
  have "real_of_int a \<le> real_of_int (?q * c)" using 2 by linarith
  hence u: "real_of_int a / real_of_int c \<le> real_of_int ?q"
    using cpos by (simp add: pos_divide_le_eq)
  show ?thesis using ceiling_unique[OF l u] by simp
qed

lemma start_threadCount_eq:
  assumes bs: "1 \<le> bs" and hc: "1 \<le> hc"
  shows "start_threadCount bs hc = Inr (min ((bs - 1) div ((bs - 1) div hc + 1) + 1) bs)"
proof -
  have k: "1 \<le> (bs - 1) div hc + 1" using bs hc by (rule ceil_pos)
  show ?thesis
    using c_div_pos[OF bs hc] c_div_pos[OF bs k]
    by (simp add: start_threadCount_def Let_def)
qed

lemma threadCount_bounds:
  fixes bs hc :: int
  assumes bs: "1 \<le> bs" and hc: "1 \<le> hc"
  defines "k \<equiv> (bs - 1) div hc + 1"
  defines "N \<equiv> (bs - 1) div k + 1"
  shows "1 \<le> N" "N \<le> bs" "((bs - 1) div N + 1) * N \<ge> bs" "((bs - 1) div N + 1) * (N - 1) < bs"
proof -
  have k: "1 \<le> k" unfolding k_def using bs hc by (rule ceil_pos)
  show N1: "1 \<le> N" unfolding N_def using bs k by (rule ceil_pos)
  show "N \<le> bs" unfolding N_def using bs k by (rule ceil_le_self)
  show "((bs - 1) div N + 1) * N \<ge> bs" using ceil_upper[OF N1, of bs] by simp
  have Nk: "bs \<le> N * k" using ceil_upper[OF k, of bs] by (simp add: N_def)
  have low: "(N - 1) * k < bs" using ceil_lower[OF k, of bs] by (simp add: N_def)
  have "((bs - 1) div N) * N < bs" using ceil_lower[OF N1, of bs] .
  have "(bs - 1) div N + 1 \<le> k"
  proof -
    have "bs - 1 < k * N" using Nk by (simp add: mult.commute)
    moreover have "((bs - 1) div N) * N \<le> bs - 1"
      using ceil_lower[OF N1, of bs] by simp
    ultimately have "((bs - 1) div N) * N < k * N" by linarith
    hence "(bs - 1) div N < k" using N1 by (simp add: mult_less_cancel_right)
    thus ?thesis by simp
  qed
  hence "((bs - 1) div N + 1) * (N - 1) \<le> k * (N - 1)"
    using N1 by (intro mult_right_mono) auto
  thus "((bs - 1) div N + 1) * (N - 1) < bs" using low by (simp add: mult.commute)
qed

lemma store_Inr:
  "store buf off bs = Inr buf' \<longleftrightarrow>
     0 \<le> off \<and> off + int (length bs) \<le> int (length buf)
     \<and> buf' = take (nat off) buf @ bs @ drop (nat off + length bs) buf"
  by (auto simp: store_def)

lemma store_length: "store buf off bs = Inr buf' \<Longrightarrow> length buf' = length buf"
  by (auto simp: store_Inr)

lemma store_nth_outside:
  assumes "store buf off bs = Inr buf'" "j < length buf" "\<not> (off \<le> int j \<and> int j < off + int (length bs))"
  shows "buf' ! j = buf ! j"
proof -
  from assms(1) have o: "0 \<le> off" and le: "off + int (length bs) \<le> int (length buf)"
    and eq: "buf' = take (nat off) buf @ bs @ drop (nat off + length bs) buf"
    by (auto simp: store_Inr)
  show ?thesis
  proof (cases "int j < off")
    case True
    hence "j < nat off" using o by linarith
    then show ?thesis using o le by (simp add: eq nth_append)
  next
    case False
    with assms(3) have ge: "off + int (length bs) \<le> int j" by simp
    hence "nat off + length bs \<le> j" using o by linarith
    moreover have "nat off \<le> length buf" using o le by linarith
    moreover have "\<not> j < nat off" "\<not> j - nat off < length bs"
      "nat off + length bs + (j - nat off - length bs) = j"
      using \<open>nat off + length bs \<le> j\<close> by linarith+
    ultimately show ?thesis using assms(2)
      by (simp add: eq nth_append) 
  qed
qed

lemma store_unchanged:
  "store buf off bs = Inr buf' \<Longrightarrow> unchanged_outside off (off + int (length bs)) buf buf'"
  unfolding unchanged_outside_def
  using store_length store_nth_outside by blast

lemma store_slice:
  "store buf off bs = Inr buf' \<Longrightarrow> region buf' off (int (length bs)) = bs"
  by (auto simp: store_Inr region_def)

lemma unchanged_outside_trans:
  "unchanged_outside lo1 hi1 xs ys \<Longrightarrow> unchanged_outside lo2 hi2 ys zs
   \<Longrightarrow> lo \<le> lo1 \<Longrightarrow> lo \<le> lo2 \<Longrightarrow> hi1 \<le> hi \<Longrightarrow> hi2 \<le> hi
   \<Longrightarrow> unchanged_outside lo hi xs zs"
  unfolding unchanged_outside_def by auto

lemma unchanged_outside_refl: "unchanged_outside lo hi xs xs"
  by (simp add: unchanged_outside_def)

lemma work_data_frame:
  assumes ex: "exact_transform tr ds" and ds: "0 \<le> ds"
  shows "work_data tr inD ds i e off out = Completed out' \<or> work_data tr inD ds i e off out = NullItem out'
     \<Longrightarrow> unchanged_outside off (off + (e - i) * ds) out out'"
  using ex ds
proof (induction tr inD ds i e off out rule: work_data.induct)
  case (1 tr inData dsz i endI dataBuf out)
  show ?case
  proof (cases "i < endI")
    case False
    with "1.prems" show ?thesis
      by (simp add: unchanged_outside_refl)
  next
    case True
    show ?thesis
    proof (cases "getItem inData i")
      case None
      with True "1.prems" show ?thesis by (simp add: unchanged_outside_refl)
    next
      case (Some item)
      show ?thesis
      proof (cases "store out dataBuf (tr (item_bytes inData item) dsz)")
        case (Inl f)
        with True Some "1.prems" show ?thesis by simp
      next
        case (Inr o1)
        from True Some Inr "1.prems"(1)
        have rec: "work_data tr inData dsz (i + 1) endI (dataBuf + dsz) o1 = Completed out'
                 \<or> work_data tr inData dsz (i + 1) endI (dataBuf + dsz) o1 = NullItem out'"
          by simp
        have ih: "unchanged_outside (dataBuf + dsz) (dataBuf + dsz + (endI - (i + 1)) * dsz) o1 out'"
          using "1.IH"[OF True Some Inr rec "1.prems"(2,3)] .
        have len: "int (length (tr (item_bytes inData item) dsz)) = dsz"
          using "1.prems"(2,3) by (simp add: exact_transform_def)
        have st: "unchanged_outside dataBuf (dataBuf + dsz) out o1"
          using store_unchanged[OF Inr] len by simp
        have hi: "dataBuf + dsz + (endI - (i + 1)) * dsz = dataBuf + (endI - i) * dsz"
          by (simp add: algebra_simps)
        have "dsz \<le> (endI - i) * dsz"
          using True "1.prems"(3) by (simp add: mult_le_cancel_right1)
        hence le: "dataBuf + dsz \<le> dataBuf + (endI - i) * dsz" by simp
        show ?thesis
          by (rule unchanged_outside_trans[OF st ih]) (use "1.prems"(3) le hi in auto)
      qed
    qed
  qed
qed

lemma region_nth:
  "k < length (region xs off n) \<Longrightarrow> region xs off n ! k = xs ! (nat off + k)"
proof -
  assume "k < length (region xs off n)"
  hence "k < nat n" "nat off + k < length xs" by (auto simp: region_def)
  thus ?thesis by (simp add: region_def)
qed

lemma region_length: "length (region xs off n) = min (nat n) (length xs - nat off)"
  by (simp add: region_def)

lemma region_unchanged:
  assumes u: "unchanged_outside lo hi xs ys" and off: "0 \<le> off"
    and dis: "off + n \<le> lo \<or> hi \<le> off"
  shows "region ys off n = region xs off n"
proof (rule nth_equalityI)
  from u have len: "length ys = length xs" by (simp add: unchanged_outside_def)
  thus l: "length (region ys off n) = length (region xs off n)" by (simp add: region_length)
  fix k assume k: "k < length (region ys off n)"
  hence kn: "k < nat n" and kl: "nat off + k < length xs"
    using len by (auto simp: region_length)
  have "\<not> (lo \<le> int (nat off + k) \<and> int (nat off + k) < hi)"
    using dis off kn by auto
  hence "ys ! (nat off + k) = xs ! (nat off + k)"
    using u kl by (simp add: unchanged_outside_def)
  thus "region ys off n ! k = region xs off n ! k"
    using k l by (simp add: region_nth)
qed

lemma region_add:
  "0 \<le> off \<Longrightarrow> 0 \<le> a \<Longrightarrow> 0 \<le> b \<Longrightarrow> region xs off (a + b) = region xs off a @ region xs (off + a) b"
  by (simp add: region_def nat_add_distrib take_add add.commute)

lemma upto_rec_left: "i < e \<Longrightarrow> [i..e - 1] = i # [i + 1..e - 1]" for i e :: int
  by (simp add: upto_rec1)

lemma work_data_content:
  assumes ex: "exact_transform tr ds" and ds: "0 \<le> ds"
  shows "work_data tr inD ds i e off out = Completed out'
     \<Longrightarrow> region out' off ((e - i) * ds) = concat (map (decoded_item tr inD ds) [i..e - 1])"
  using ex ds
proof (induction tr inD ds i e off out rule: work_data.induct)
  case (1 tr inData dsz i endI dataBuf out)
  show ?case
  proof (cases "i < endI")
    case False
    hence "(endI - i) * dsz \<le> 0" using "1.prems"(3) by (simp add: mult_le_0_iff)
    with False show ?thesis by (simp add: region_def)
  next
    case True
    show ?thesis
    proof (cases "getItem inData i")
      case None
      with True "1.prems" show ?thesis by simp
    next
      case (Some item)
      show ?thesis
      proof (cases "store out dataBuf (tr (item_bytes inData item) dsz)")
        case (Inl f)
        with True Some "1.prems" show ?thesis by simp
      next
        case (Inr o1)
        from True Some Inr "1.prems"(1)
        have rec: "work_data tr inData dsz (i + 1) endI (dataBuf + dsz) o1 = Completed out'"
          by simp
        have ih: "region out' (dataBuf + dsz) ((endI - (i + 1)) * dsz)
                  = concat (map (decoded_item tr inData dsz) [i + 1..endI - 1])"
          using "1.IH"[OF True Some Inr rec "1.prems"(2,3)] .
        have len: "int (length (tr (item_bytes inData item) dsz)) = dsz"
          using "1.prems"(2,3) by (simp add: exact_transform_def)
        have fr: "unchanged_outside (dataBuf + dsz) (dataBuf + dsz + (endI - (i + 1)) * dsz) o1 out'"
          using work_data_frame[OF "1.prems"(2,3), of inData "i + 1" endI "dataBuf + dsz" o1 out'] rec
          by simp
        have o1: "0 \<le> dataBuf"
          using Inr by (simp add: store_Inr)
        have "region out' dataBuf dsz = region o1 dataBuf dsz"
          by (rule region_unchanged[OF fr o1]) simp
        hence first: "region out' dataBuf dsz = tr (item_bytes inData item) dsz"
          using store_slice[OF Inr] len by simp
        have rest: "0 \<le> (endI - (i + 1)) * dsz"
          using True "1.prems"(3) by simp
        have "(endI - i) * dsz = dsz + (endI - (i + 1)) * dsz"
          by (simp add: algebra_simps)
        hence split: "region out' dataBuf ((endI - i) * dsz)
            = region out' dataBuf dsz @ region out' (dataBuf + dsz) ((endI - (i + 1)) * dsz)"
          using region_add[OF o1 "1.prems"(3) rest, of out'] by simp
        have hd: "decoded_item tr inData dsz i = tr (item_bytes inData item) dsz"
          using Some by (simp add: decoded_item_def)
        show ?thesis
          using True by (simp add: upto_rec_left split first ih hd)
      qed
    qed
  qed
qed

lemma ctor_success:
  assumes N: "1 \<le> N" and bs: "1 \<le> bs"
    and a1: "((bs - 1) div N + 1) * N \<ge> bs" and a2: "((bs - 1) div N + 1) * (N - 1) < bs"
  shows "\<exists>p. DecodeThreadPool_ctor N bs ds ts = Inr p \<and> itemsPerThread p = (bs - 1) div N + 1"
  using a1 a2 c_div_pos[OF bs N]
  by (simp add: DecodeThreadPool_ctor_def Let_def)

lemma ctor_fields:
  assumes "DecodeThreadPool_ctor N bs ds ts = Inr p"
  shows "count p = N" "batchSize p = bs" "datumSize p = ds" "targetSize p = ts"
    "endSignaled p = 0" "bufferIndex p = 0" "threads p = 0" "manager p = False"
    "doneFlag p = False" "stopManager p = False"
    "startSignaled p = replicate (nat N) 0"
    "ctor_inv p"
  using assms
  by (auto simp: DecodeThreadPool_ctor_def Let_def ctor_inv_def split: sum.splits if_splits)

lemma ctor_inv_pos:
  assumes inv: "ctor_inv p" and w: "int w < count p"
  shows "1 \<le> count p" "1 \<le> itemsPerThread p" "1 \<le> batchSize p"
proof -
  let ?c = "count p" and ?i = "itemsPerThread p" and ?b = "batchSize p"
  show c: "1 \<le> ?c" using w by linarith
  from inv have a1: "?b \<le> ?i * ?c" and a2: "?i * (?c - 1) < ?b"
    by (auto simp: ctor_inv_def)
  have "?i * ?c - ?i < ?i * ?c" using a1 a2 by (simp add: algebra_simps)
  thus i: "1 \<le> ?i" by simp
  have "0 \<le> ?i * (?c - 1)" using i c by simp
  thus "1 \<le> ?b" using a2 by linarith
qed

lemma run_init_Inr:
  assumes inv: "ctor_inv p" and w: "int w < count p"
  shows "\<exists>p'. run_init w p = Inr p'"
  using assms by (auto simp: run_init_def ctor_inv_def Let_def)

lemma run_init_fields:
  assumes r: "run_init w p = Inr p'"
  shows "count p' = count p" "batchSize p' = batchSize p" "datumSize p' = datumSize p"
    "targetSize p' = targetSize p" "itemsPerThread p' = itemsPerThread p"
    "endSignaled p' = endSignaled p" "startSignaled p' = startSignaled p"
    "bufferIndex p' = bufferIndex p"
    "int w < count p" "w < length (startInds p)"
    "startInds p' = (startInds p)[w := int w * itemsPerThread p]"
    "ctor_inv p \<Longrightarrow> ctor_inv p'"
  using r by (auto simp: run_init_def Let_def ctor_inv_def split: if_splits)

lemma run_init_geometry:
  assumes inv: "ctor_inv p" and r: "run_init w p = Inr p'"
  shows "startInds p' ! w = spec_startInd p' w"
    and "endInds p' ! w = spec_endInd p' w"
    and "dataOffsets p' ! w = c_mul (spec_startInd p' w) (datumSize p')"
    and "targetOffsets p' ! w = c_mul (spec_startInd p' w) (targetSize p')"
    and "targetSpans p' ! w = c_mul (spec_endInd p' w - spec_startInd p' w) (targetSize p')"
proof -
  let ?c = "count p" and ?i = "itemsPerThread p" and ?b = "batchSize p"
  from r have w: "int w < ?c" and wl: "w < length (startInds p)"
    by (auto simp: run_init_def split: if_splits)
  from inv have a1: "?b \<le> ?i * ?c" and a2: "?i * (?c - 1) < ?b"
    and len: "length (startInds p) = nat ?c" "length (endInds p) = nat ?c"
      "length (dataOffsets p) = nat ?c" "length (targetOffsets p) = nat ?c"
      "length (targetSpans p) = nat ?c"
    by (auto simp: ctor_inv_def)
  have i: "1 \<le> ?i" using ctor_inv_pos[OF inv w] by simp
  have e: "(if int w = ?c - 1 then ?b - int w * ?i else ?i) + int w * ?i
           = min ((int w + 1) * ?i) ?b"
  proof (cases "int w = ?c - 1")
    case True
    hence "int w + 1 = ?c" by simp
    hence "?b \<le> (int w + 1) * ?i" using a1 by (simp only: mult.commute)
    hence "min ((int w + 1) * ?i) ?b = ?b" by (rule min_absorb2)
    with True show ?thesis by simp
  next
    case False
    hence "int w + 1 \<le> ?c - 1" using w by linarith
    hence "(int w + 1) * ?i \<le> (?c - 1) * ?i" using i by (intro mult_right_mono) auto
    hence "(int w + 1) * ?i < ?b" using a2 by (simp add: mult.commute)
    with False show ?thesis by (simp add: min_def algebra_simps)
  qed
  show "startInds p' ! w = spec_startInd p' w"
    using r wl by (auto simp: run_init_def Let_def spec_startInd_def split: if_splits)
  show "endInds p' ! w = spec_endInd p' w"
    using r wl len e
    by (auto simp: run_init_def Let_def spec_endInd_def add.commute split: if_splits)
  show "dataOffsets p' ! w = c_mul (spec_startInd p' w) (datumSize p')"
    using r wl len by (auto simp: run_init_def Let_def spec_startInd_def split: if_splits)
  show "targetOffsets p' ! w = c_mul (spec_startInd p' w) (targetSize p')"
    using r wl len by (auto simp: run_init_def Let_def spec_startInd_def split: if_splits)
  have e': "(if int w = ?c - 1 then ?b - int w * ?i else ?i)
            = min ((int w + 1) * ?i) ?b - int w * ?i"
    using e by linarith
  have sp: "targetSpans p' ! w
            = c_mul (if int w = ?c - 1 then ?b - int w * ?i else ?i) (targetSize p)"
    using r wl len by (auto simp: run_init_def Let_def split: if_splits)
  have f: "itemsPerThread p' = ?i" "batchSize p' = ?b" "targetSize p' = targetSize p"
    using run_init_fields[OF r] by simp_all
  show "targetSpans p' ! w = c_mul (spec_endInd p' w - spec_startInd p' w) (targetSize p')"
    unfolding sp e' by (simp add: spec_startInd_def spec_endInd_def f)
qed

lemma spec_range_nonempty:
  assumes inv: "ctor_inv p" and w: "int w < count p"
  shows "spec_startInd p w < spec_endInd p w" "0 \<le> spec_startInd p w" "spec_endInd p w \<le> batchSize p"
proof -
  let ?c = "count p" and ?i = "itemsPerThread p" and ?b = "batchSize p"
  from inv have a2: "?i * (?c - 1) < ?b" by (auto simp: ctor_inv_def)
  have i: "1 \<le> ?i" using ctor_inv_pos[OF inv w] by simp
  have "int w * ?i \<le> (?c - 1) * ?i" using w i by (intro mult_right_mono) auto
  hence "int w * ?i < ?b" using a2 by (simp add: mult.commute)
  moreover have "int w * ?i < (int w + 1) * ?i" using i by (simp add: algebra_simps)
  ultimately show "spec_startInd p w < spec_endInd p w"
    by (simp add: spec_startInd_def spec_endInd_def)
  show "0 \<le> spec_startInd p w" using i by (simp add: spec_startInd_def)
  show "spec_endInd p w \<le> batchSize p" by (simp add: spec_endInd_def)
qed

text \<open>
  C4. For every batch size and hardware concurrency of at least 1, \<open>Loader::start\<close>
  computes the worker count \<open>N = min(batchSize, ceil(batchSize / ceil(batchSize /
  hardware_concurrency)))\<close>, the constructor accepts it with
  \<open>itemsPerThread = ceil(batchSize / N)\<close>, both of its assertions hold
  (\<open>itemsPerThread * N \<ge> batchSize\<close> and \<open>itemsPerThread * (N - 1) < batchSize\<close>),
  \<open>N\<close> is at most the batch size (and equal to it when the batch size is below the
  hardware concurrency), and no worker's item range is empty.
\<close>

theorem C4_thread_count_partition:
  assumes bs: "1 \<le> bs" and hc: "1 \<le> hc"
  shows "\<exists>N p. start_threadCount bs hc = Inr N
          \<and> N = min bs \<lceil>real_of_int bs / real_of_int \<lceil>real_of_int bs / real_of_int hc\<rceil>\<rceil>
          \<and> DecodeThreadPool_ctor N bs ds ts = Inr p
          \<and> itemsPerThread p = \<lceil>real_of_int bs / real_of_int N\<rceil>
          \<and> itemsPerThread p * N \<ge> bs \<and> itemsPerThread p * (N - 1) < bs
          \<and> 1 \<le> N \<and> N \<le> bs \<and> (bs < hc \<longrightarrow> N = bs)
          \<and> (\<forall>w. int w < N \<longrightarrow>
                (\<exists>p'. run_init w p = Inr p' \<and> startInds p' ! w < endInds p' ! w))"
proof -
  define k where "k = (bs - 1) div hc + 1"
  define N where "N = (bs - 1) div k + 1"
  have k1: "1 \<le> k" unfolding k_def using bs hc by (rule ceil_pos)
  have b: "1 \<le> N" "N \<le> bs" "((bs - 1) div N + 1) * N \<ge> bs" "((bs - 1) div N + 1) * (N - 1) < bs"
    using threadCount_bounds[OF bs hc] by (simp_all add: N_def k_def)
  have tc: "start_threadCount bs hc = Inr N"
    using start_threadCount_eq[OF bs hc] b(2) by (simp add: N_def k_def)
  have kr: "k = \<lceil>real_of_int bs / real_of_int hc\<rceil>"
    unfolding k_def by (rule ceil_real[OF bs hc])
  have Nr: "N = min bs \<lceil>real_of_int bs / real_of_int \<lceil>real_of_int bs / real_of_int hc\<rceil>\<rceil>"
    using ceil_real[OF bs k1] b(2) by (simp add: N_def kr[symmetric])
  obtain p where p: "DecodeThreadPool_ctor N bs ds ts = Inr p"
    and ipt: "itemsPerThread p = (bs - 1) div N + 1"
    using ctor_success[OF b(1) bs b(3,4)] by blast
  have iptr: "itemsPerThread p = \<lceil>real_of_int bs / real_of_int N\<rceil>"
    using ceil_real[OF bs b(1)] ipt by simp
  have inv: "ctor_inv p" and cnt: "count p = N" using ctor_fields[OF p] by simp_all
  have small: "bs < hc \<longrightarrow> N = bs"
  proof
    assume "bs < hc"
    hence "(bs - 1) div hc = 0" using bs by (simp add: div_pos_pos_trivial)
    thus "N = bs" by (simp add: N_def k_def)
  qed
  have ne: "\<forall>w. int w < N \<longrightarrow> (\<exists>p'. run_init w p = Inr p' \<and> startInds p' ! w < endInds p' ! w)"
  proof (intro allI impI)
    fix w assume w: "int w < N"
    then obtain p' where r: "run_init w p = Inr p'"
      using run_init_Inr[OF inv, of w] cnt by auto
    have inv': "ctor_inv p'" and c': "count p' = count p"
      using run_init_fields[OF r] inv by simp_all
    have "spec_startInd p' w < spec_endInd p' w"
      using spec_range_nonempty(1)[OF inv', of w] w cnt c' by simp
    thus "\<exists>p'. run_init w p = Inr p' \<and> startInds p' ! w < endInds p' ! w"
      using r run_init_geometry(1,2)[OF inv r] by auto
  qed
  show ?thesis
    using tc Nr p iptr b ipt small ne by (intro exI[of _ N] exI[of _ p]) simp
qed

theorem C4_thread_count_partition_witness:
  "(1::int) \<le> 10 \<and> (1::int) \<le> 4
   \<and> (\<exists>N p. start_threadCount 10 4 = Inr N
          \<and> N = min 10 \<lceil>real_of_int 10 / real_of_int \<lceil>real_of_int 10 / real_of_int 4\<rceil>\<rceil>
          \<and> DecodeThreadPool_ctor N 10 2 1 = Inr p
          \<and> itemsPerThread p = \<lceil>real_of_int 10 / real_of_int N\<rceil>
          \<and> itemsPerThread p * N \<ge> 10 \<and> itemsPerThread p * (N - 1) < 10
          \<and> 1 \<le> N \<and> N \<le> 10 \<and> ((10::int) < 4 \<longrightarrow> N = 10)
          \<and> (\<forall>w. int w < N \<longrightarrow>
                (\<exists>p'. run_init w p = Inr p' \<and> startInds p' ! w < endInds p' ! w)))"
  using C4_thread_count_partition[of 10 4 2 1] by simp

lemma memcpy_store:
  assumes "memcpy dst doff src soff n = Inr d'"
  shows "store dst doff (region src soff n) = Inr d'" "int (length (region src soff n)) = n"
    "0 \<le> n" "0 \<le> doff" "0 \<le> soff"
proof -
  from assms have c: "0 \<le> n" "0 \<le> doff" "0 \<le> soff" "doff + n \<le> int (length dst)"
      "soff + n \<le> int (length src)"
    and eq: "d' = take (nat doff) dst @ take (nat n) (drop (nat soff) src) @ drop (nat doff + nat n) dst"
    by (auto simp: memcpy_def split: if_splits)
  show "0 \<le> n" "0 \<le> doff" "0 \<le> soff" by fact+
  have "nat n \<le> length src - nat soff" using c by linarith
  thus len: "int (length (region src soff n)) = n" using c by (simp add: region_length)
  hence "length (region src soff n) = nat n" by linarith
  thus "store dst doff (region src soff n) = Inr d'"
    using c eq by (simp add: store_def) (simp add: region_def)
qed

lemma memcpy_unchanged:
  "memcpy dst doff src soff n = Inr d' \<Longrightarrow> unchanged_outside doff (doff + n) dst d'"
  using store_unchanged[OF memcpy_store(1)] memcpy_store(2) by fastforce

lemma memcpy_slice:
  "memcpy dst doff src soff n = Inr d' \<Longrightarrow> region d' doff n = region src soff n"
  using store_slice[OF memcpy_store(1)] memcpy_store(2) by fastforce

lemma work_targets_frame:
  "work_targets w p inT outT = Inr t
   \<Longrightarrow> unchanged_outside (targetOffsets p ! w) (targetOffsets p ! w + targetSpans p ! w) outT t"
  by (auto simp: work_targets_def split: option.splits if_splits intro: memcpy_unchanged)

lemma unchanged_outside_widen:
  "unchanged_outside lo1 hi1 xs ys \<Longrightarrow> lo \<le> lo1 \<Longrightarrow> hi1 \<le> hi \<Longrightarrow> unchanged_outside lo hi xs ys"
  unfolding unchanged_outside_def by auto

lemma run_init_run_done:
  "ctor_inv p \<Longrightarrow> run_init w p = Inr p' \<Longrightarrow> run_done p' w"
  using run_init_geometry[of p w p'] run_init_fields(10,11)[of w p p']
  by (simp add: run_done_def)

lemma c_mul_exact:
  "0 \<le> a * b \<Longrightarrow> a * b < 2147483648 \<Longrightarrow> c_mul a b = a * b"
  by (simp add: c_mul_def)

lemma run_done_geometry:
  assumes rd: "run_done p w" and inv: "ctor_inv p" and w: "int w < count p"
    and sz: "int_sized p"
  shows "geometry p w"
proof -
  let ?s = "spec_startInd p w" and ?e = "spec_endInd p w" and ?b = "batchSize p"
  note n = spec_range_nonempty[OF inv w]
  from sz have ds: "0 \<le> datumSize p" and ts: "0 \<le> targetSize p"
    and bd: "?b * datumSize p < 2147483648" and bt: "?b * targetSize p < 2147483648"
    by (simp_all add: int_sized_def)
  have sb: "?s \<le> ?b" and db: "?e - ?s \<le> ?b" and d0: "0 \<le> ?e - ?s"
    using n by linarith+
  have "?s * datumSize p \<le> ?b * datumSize p" by (rule mult_right_mono[OF sb ds])
  hence 1: "c_mul ?s (datumSize p) = ?s * datumSize p"
    using n(2) ds bd by (intro c_mul_exact) simp_all
  have "?s * targetSize p \<le> ?b * targetSize p" by (rule mult_right_mono[OF sb ts])
  hence 2: "c_mul ?s (targetSize p) = ?s * targetSize p"
    using n(2) ts bt by (intro c_mul_exact) simp_all
  have "(?e - ?s) * targetSize p \<le> ?b * targetSize p" by (rule mult_right_mono[OF db ts])
  hence 3: "c_mul (?e - ?s) (targetSize p) = (?e - ?s) * targetSize p"
    using d0 ts bt by (intro c_mul_exact) simp_all
  from rd show ?thesis by (simp add: run_done_def geometry_def 1 2 3)
qed

lemma work_decode_frame:
  assumes g: "geometry p w" and ds: "0 \<le> datumSize p"
    and tr: "exact_transform tr (datumSize p)"
    and dec: "work_decode tr w p inp ob = Completed ob' \<or> work_decode tr w p inp ob = NullItem ob'"
  shows "unchanged_outside (spec_startInd p w * datumSize p) (spec_endInd p w * datumSize p)
           (data (fst ob)) (data (fst ob'))"
    and "unchanged_outside (spec_startInd p w * targetSize p) (spec_endInd p w * targetSize p)
           (data (snd ob)) (data (snd ob'))"
proof -
  let ?s = "spec_startInd p w" and ?e = "spec_endInd p w"
  let ?wd = "work_data tr (fst inp) (datumSize p) ?s ?e (?s * datumSize p) (data (fst ob))"
  from g have wl: "w < length (startInds p)" by (simp add: geometry_def)
  have hi: "?s * datumSize p + (?e - ?s) * datumSize p = ?e * datumSize p"
    by (simp add: algebra_simps)
  have hit: "?s * targetSize p + (?e - ?s) * targetSize p = ?e * targetSize p"
    by (simp add: algebra_simps)
  from dec g obtain d where d: "?wd = Completed d \<or> ?wd = NullItem d" and d': "data (fst ob') = d"
    by (auto simp: work_decode_def geometry_def split: loop_result.splits sum.splits)
  show "unchanged_outside (?s * datumSize p) (?e * datumSize p) (data (fst ob)) (data (fst ob'))"
    using work_data_frame[OF tr ds d] hi d' by simp
  from dec g have "data (snd ob') = data (snd ob)
      \<or> work_targets w p (snd inp) (data (snd ob)) = Inr (data (snd ob'))"
    by (auto simp: work_decode_def geometry_def split: loop_result.splits sum.splits)
  thus "unchanged_outside (?s * targetSize p) (?e * targetSize p) (data (snd ob)) (data (snd ob'))"
  proof
    assume "data (snd ob') = data (snd ob)"
    thus ?thesis by (simp add: unchanged_outside_refl)
  next
    assume "work_targets w p (snd inp) (data (snd ob)) = Inr (data (snd ob'))"
    from work_targets_frame[OF this] g hit show ?thesis by (simp add: geometry_def)
  qed
qed

lemma spec_interval_disjoint:
  assumes inv: "ctor_inv p" and sz: "0 \<le> sz"
    and w1: "int w1 < count p" and w2: "int w2 < count p" and ne: "w1 \<noteq> w2"
  shows "spec_interval p sz w1 \<inter> spec_interval p sz w2 = {}"
proof -
  have i: "1 \<le> itemsPerThread p" using ctor_inv_pos[OF inv w1] by simp
  have key: "spec_endInd p a * sz \<le> spec_startInd p b * sz" if "a < b" for a b :: nat
  proof -
    from that have "int a + 1 \<le> int b" by simp
    hence "(int a + 1) * itemsPerThread p \<le> int b * itemsPerThread p"
      using i by (intro mult_right_mono) auto
    hence "spec_endInd p a \<le> spec_startInd p b"
      by (simp add: spec_endInd_def spec_startInd_def)
    thus ?thesis using sz by (rule mult_right_mono)
  qed
  from ne consider "w1 < w2" | "w2 < w1" by linarith
  thus ?thesis
  proof cases
    case 1 from key[OF 1] show ?thesis by (auto simp: spec_interval_def)
  next
    case 2 from key[OF 2] show ?thesis by (auto simp: spec_interval_def)
  qed
qed

lemma div_bounds:
  "0 < c \<Longrightarrow> (a div c) * c \<le> a \<and> a < (a div c + 1) * c" for a c :: int
proof -
  assume c: "0 < c"
  have "a = (a div c) * c + a mod c" by simp
  moreover have "0 \<le> a mod c" "a mod c < c" using c by simp_all
  ultimately have "(a div c) * c \<le> a" "a < (a div c) * c + c" by linarith+
  thus ?thesis by (simp add: algebra_simps)
qed

lemma spec_interval_cover:
  assumes inv: "ctor_inv p" and sz: "0 \<le> sz"
  shows "(\<Union>w \<in> {w. int w < count p}. spec_interval p sz w) = {0 ..< batchSize p * sz}"
proof (intro set_eqI iffI)
  fix x assume "x \<in> (\<Union>w \<in> {w. int w < count p}. spec_interval p sz w)"
  then obtain w where w: "int w < count p" and x: "spec_startInd p w * sz \<le> x" "x < spec_endInd p w * sz"
    by (auto simp: spec_interval_def)
  have "0 \<le> spec_startInd p w * sz" using spec_range_nonempty(2)[OF inv w] sz by simp
  moreover have "spec_endInd p w * sz \<le> batchSize p * sz"
    using spec_range_nonempty(3)[OF inv w] sz by (rule mult_right_mono)
  ultimately show "x \<in> {0 ..< batchSize p * sz}" using x by simp
next
  fix x assume "x \<in> {0 ..< batchSize p * sz}"
  hence x: "0 \<le> x" "x < batchSize p * sz" by simp_all
  let ?i = "itemsPerThread p"
  have szp: "0 < sz"
  proof (rule ccontr)
    assume "\<not> 0 < sz" with sz have "sz = 0" by simp
    with x show False by simp
  qed
  define it where "it = x div sz"
  have it0: "0 \<le> it" using x szp by (simp add: it_def pos_imp_zdiv_nonneg_iff)
  have itx: "it * sz \<le> x" "x < (it + 1) * sz"
    using div_bounds[OF szp, of x] by (simp_all add: it_def)
  have itb: "it < batchSize p"
  proof (rule ccontr)
    assume "\<not> it < batchSize p"
    hence "batchSize p * sz \<le> it * sz" using sz by (intro mult_right_mono) auto
    with itx x show False by linarith
  qed
  have bpos: "1 \<le> batchSize p" using it0 itb by linarith
  from inv have a1: "batchSize p \<le> ?i * count p" and a2: "?i * (count p - 1) < batchSize p"
    by (auto simp: ctor_inv_def)
  have ipos: "1 \<le> ?i"
  proof (rule ccontr)
    assume n: "\<not> 1 \<le> ?i"
    hence i0: "?i \<le> 0" by simp
    show False
    proof (cases "0 \<le> count p")
      case True
      hence "?i * count p \<le> 0" using i0 by (simp add: mult_le_0_iff)
      with a1 bpos show False by linarith
    next
      case False
      have "?i * count p - ?i < ?i * count p" using a1 a2 by (simp add: algebra_simps)
      with i0 show False by simp
    qed
  qed
  define w where "w = nat (it div ?i)"
  have wq: "int w = it div ?i" using it0 ipos by (simp add: w_def pos_imp_zdiv_nonneg_iff)
  have ip: "0 < ?i" using ipos by simp
  have lo: "int w * ?i \<le> it" and hi: "it < (int w + 1) * ?i"
    using div_bounds[OF ip, of it] by (simp_all add: wq)
  have wc: "int w < count p"
  proof (rule ccontr)
    assume "\<not> int w < count p"
    hence "count p * ?i \<le> int w * ?i" using ipos by (intro mult_right_mono) auto
    with lo itb a1 show False by (simp add: mult.commute)
  qed
  have s: "spec_startInd p w * sz \<le> x"
  proof -
    have "int w * ?i * sz \<le> it * sz" using lo sz by (rule mult_right_mono)
    thus ?thesis using itx by (simp add: spec_startInd_def)
  qed
  have "it + 1 \<le> spec_endInd p w" using hi itb by (simp add: spec_endInd_def)
  hence "(it + 1) * sz \<le> spec_endInd p w * sz" using sz by (rule mult_right_mono)
  hence e: "x < spec_endInd p w * sz" using itx by linarith
  show "x \<in> (\<Union>w \<in> {w. int w < count p}. spec_interval p sz w)"
    using wc s e by (auto simp: spec_interval_def)
qed

lemma ex_pool_ctor: "DecodeThreadPool_ctor 2 4 2 1 = Inr ex_pool"
  by (simp add: ex_pool_def DecodeThreadPool_ctor_def c_div_def signed_divide_int_def)

lemma ex_pool_fields:
  "count ex_pool = 2" "batchSize ex_pool = 4" "datumSize ex_pool = 2" "targetSize ex_pool = 1"
  "ctor_inv ex_pool"
  using ctor_fields[OF ex_pool_ctor] by simp_all

lemma exact_pad_transform: "0 \<le> n \<Longrightarrow> exact_transform pad_transform n"
  by (auto simp: exact_transform_def pad_transform_def min_def)

text \<open>
  The 32-bit products at work: in a pool of two workers for a batch of four items of
  \<open>2^30\<close> bytes, the data offset that \<open>run\<close> stores for worker 1 is \<open>-2^31\<close>, not
  \<open>2 * 2^30\<close>; in a pool of five workers for a batch of five such items, the data
  offset of worker 4 is 0, the offset of worker 0.
\<close>

lemma run_init_offsets_wrap:
  "dataOffsets (projr (run_init 1 (projr (DecodeThreadPool_ctor 2 4 1073741824 1)))) ! 1
     = - 2147483648"
  "dataOffsets (projr (run_init 4 (projr (DecodeThreadPool_ctor 5 5 1073741824 1)))) ! 4 = 0"
  by code_simp+

text \<open>
  C3. The sizes are such that the two pool sizes \<open>batchSize * datumSize\<close> and
  \<open>batchSize * targetSize\<close> are values of \<open>int\<close> (below \<open>2^31\<close>), so that no product
  of \<open>run\<close> overflows. A worker whose partition entries were computed by \<open>run\<close> has
  \<open>startInd = id * itemsPerThread\<close> and \<open>endInd = min((id + 1) * itemsPerThread,
  batchSize)\<close>; whether its call of \<open>work\<close> completes or ends early at a null item,
  the output data half differs from what it was at most at the offsets in
  \<open>[startInd * datumSize, endInd * datumSize)\<close>, and the output target half at most
  in \<open>[startInd * targetSize, endInd * targetSize)\<close>. The intervals of different
  workers are disjoint and their union is \<open>[0, batchSize * datumSize)\<close>, respectively
  \<open>[0, batchSize * targetSize)\<close>.
\<close>

theorem C3_worker_writes_partition:
  assumes inv: "ctor_inv p0"
    and init: "run_init w p0 = Inr p"
    and ds: "0 \<le> datumSize p" and ts: "0 \<le> targetSize p"
    and bd: "batchSize p * datumSize p < 2147483648"
    and bt: "batchSize p * targetSize p < 2147483648"
    and tr: "exact_transform tr (datumSize p)"
    and dec: "work_decode tr w p inp ob = Completed ob' \<or> work_decode tr w p inp ob = NullItem ob'"
  shows "startInds p ! w = spec_startInd p w \<and> endInds p ! w = spec_endInd p w
       \<and> unchanged_outside (spec_startInd p w * datumSize p) (spec_endInd p w * datumSize p)
            (data (fst ob)) (data (fst ob'))
       \<and> unchanged_outside (spec_startInd p w * targetSize p) (spec_endInd p w * targetSize p)
            (data (snd ob)) (data (snd ob'))
       \<and> (\<forall>w1 w2. int w1 < count p \<and> int w2 < count p \<and> w1 \<noteq> w2 \<longrightarrow>
              spec_interval p (datumSize p) w1 \<inter> spec_interval p (datumSize p) w2 = {}
            \<and> spec_interval p (targetSize p) w1 \<inter> spec_interval p (targetSize p) w2 = {})
       \<and> (\<Union>w1 \<in> {w1. int w1 < count p}. spec_interval p (datumSize p) w1)
            = {0 ..< batchSize p * datumSize p}
       \<and> (\<Union>w1 \<in> {w1. int w1 < count p}. spec_interval p (targetSize p) w1)
            = {0 ..< batchSize p * targetSize p}"
proof -
  have inv': "ctor_inv p" using run_init_fields(12)[OF init inv] .
  have sz: "int_sized p" using ds ts bd bt by (simp add: int_sized_def)
  have g: "geometry p w"
    using run_done_geometry[OF run_init_run_done[OF inv init] inv' _ sz]
      run_init_fields(1,9)[OF init] by simp
  have se: "startInds p ! w = spec_startInd p w \<and> endInds p ! w = spec_endInd p w"
    using g by (simp add: geometry_def)
  have dis: "\<forall>w1 w2. int w1 < count p \<and> int w2 < count p \<and> w1 \<noteq> w2 \<longrightarrow>
              spec_interval p (datumSize p) w1 \<inter> spec_interval p (datumSize p) w2 = {}
            \<and> spec_interval p (targetSize p) w1 \<inter> spec_interval p (targetSize p) w2 = {}"
    using spec_interval_disjoint[OF inv' ds] spec_interval_disjoint[OF inv' ts] by blast
  show ?thesis
    using se work_decode_frame[OF g ds tr dec] dis
      spec_interval_cover[OF inv' ds] spec_interval_cover[OF inv' ts]
    by blast
qed

lemma ex_run_init_1:
  "run_init 1 ex_pool = Inr (ex_pool \<lparr> startInds := [0, 2], endInds := [0, 4],
      dataOffsets := [0, 4], targetOffsets := [0, 2], targetSpans := [0, 2] \<rparr>)"
  by code_simp

lemma ex_work_decode_1:
  "work_decode pad_transform 1 (projr (run_init 1 ex_pool)) ex_input ex_out =
     Completed (\<lparr> data = [0, 0, 0, 0, 0x30, 0x31, 0x40, 0x41], items = [] \<rparr>,
                \<lparr> data = [0, 0, 0xA2, 0xA3], items = [] \<rparr>)"
  by code_simp

theorem C3_worker_writes_partition_witness:
  "ctor_inv ex_pool
   \<and> run_init 1 ex_pool = Inr (projr (run_init 1 ex_pool))
   \<and> 0 \<le> datumSize (projr (run_init 1 ex_pool))
   \<and> 0 \<le> targetSize (projr (run_init 1 ex_pool))
   \<and> batchSize (projr (run_init 1 ex_pool)) * datumSize (projr (run_init 1 ex_pool)) < 2147483648
   \<and> batchSize (projr (run_init 1 ex_pool)) * targetSize (projr (run_init 1 ex_pool)) < 2147483648
   \<and> exact_transform pad_transform (datumSize (projr (run_init 1 ex_pool)))
   \<and> work_decode pad_transform 1 (projr (run_init 1 ex_pool)) ex_input ex_out =
       Completed (\<lparr> data = [0, 0, 0, 0, 0x30, 0x31, 0x40, 0x41], items = [] \<rparr>,
                  \<lparr> data = [0, 0, 0xA2, 0xA3], items = [] \<rparr>)
   \<and> startInds (projr (run_init 1 ex_pool)) ! 1 = 2
   \<and> endInds (projr (run_init 1 ex_pool)) ! 1 = 4
   \<and> unchanged_outside 4 8 (data (fst ex_out)) [0, 0, 0, 0, 0x30, 0x31, 0x40, 0x41]
   \<and> unchanged_outside 2 4 (data (snd ex_out)) [0, 0, 0xA2, 0xA3]
   \<and> (\<Union>w1 \<in> {w1. int w1 < 2}. spec_interval (projr (run_init 1 ex_pool)) 2 w1) = {0 ..< 8}
   \<and> (\<Union>w1 \<in> {w1. int w1 < 2}. spec_interval (projr (run_init 1 ex_pool)) 1 w1) = {0 ..< 4}"
proof -
  let ?p = "projr (run_init 1 ex_pool)"
  have h1: "ctor_inv ex_pool" by (rule ex_pool_fields)
  have h2: "run_init 1 ex_pool = Inr ?p" by (simp only: ex_run_init_1 sum.sel)
  have f: "datumSize ?p = 2" "targetSize ?p = 1" "count ?p = 2" "batchSize ?p = 4"
    "itemsPerThread ?p = 2"
    using run_init_fields[OF h2] ex_pool_fields ctor_fields[OF ex_pool_ctor]
    by (simp_all add: ex_pool_def DecodeThreadPool_ctor_def c_div_def signed_divide_int_def)
  have h3: "0 \<le> datumSize ?p" and h4: "0 \<le> targetSize ?p" using f by simp_all
  have b1: "batchSize ?p * datumSize ?p < 2147483648"
    and b2: "batchSize ?p * targetSize ?p < 2147483648" using f by simp_all
  have h5: "exact_transform pad_transform (datumSize ?p)"
    using h3 by (rule exact_pad_transform)
  note h6 = ex_work_decode_1
  have s: "spec_startInd ?p 1 = 2" "spec_endInd ?p 1 = 4"
    using f by (simp_all add: spec_startInd_def spec_endInd_def)
  show ?thesis
    using C3_worker_writes_partition[OF h1 h2 h3 h4 b1 b2 h5 disjI1[OF h6]]
      h1 h2 h3 h4 b1 b2 h5 h6 f s
    by simp
qed

text \<open>
  C2. The claim: on every exit from the per-batch body of \<open>work\<close>, also the one taken
  when \<open>getItem\<close> returns a null pointer, the worker increments \<open>_endSignaled\<close>
  before it returns. The code: for the batch whose data half holds three of the four
  items, the call of worker 1 returns with its start signal consumed and \<open>_endSignaled\<close>
  still 0, whereas for the full batch the same call returns with \<open>_endSignaled\<close> 1.
\<close>

theorem C2_null_item_return_skips_endSignaled:
  "snd (work pad_transform 1 ex_short_input (ex_dispatched, ex_decode_pool)) = Return ()
   \<and> startSignaled ex_dispatched ! 1 = 1
   \<and> startSignaled (fst (fst (work pad_transform 1 ex_short_input (ex_dispatched, ex_decode_pool)))) ! 1 = 0
   \<and> endSignaled ex_dispatched = 0
   \<and> endSignaled (fst (fst (work pad_transform 1 ex_short_input (ex_dispatched, ex_decode_pool)))) = 0
   \<and> snd (work pad_transform 1 ex_input (ex_dispatched, ex_decode_pool)) = Return ()
   \<and> endSignaled (fst (fst (work pad_transform 1 ex_input (ex_dispatched, ex_decode_pool)))) = 1"
  by code_simp

lemma ReadThread_produce_fail:
  assumes nf: "\<not> pool_full out" and r: "fst (rd (getForWrite out)) = - 1"
  shows "ReadThread_produce rd (t, out)
         = ((t \<lparr> rt_doneFlag := True \<rparr>, putForWrite out (snd (rd (getForWrite out)))), Throw)"
  using nf r by (simp add: ReadThread_produce_def Let_def)

text \<open>
  C6. When \<open>reader.read\<close> on the pair at the write cursor returns -1, \<open>produce\<close> of
  the read thread sets \<open>_done\<close> and throws; the write cursor and the occupancy of the
  pool are as before, and \<open>nonEmpty\<close> has not been signalled.
\<close>

theorem C6_reader_failure:
  assumes nf: "\<not> pool_full out" and r: "fst (rd (getForWrite out)) = - 1"
  shows "snd (ReadThread_produce rd (t, out)) = Throw
       \<and> rt_doneFlag (fst (fst (ReadThread_produce rd (t, out)))) = True
       \<and> writePos (snd (fst (ReadThread_produce rd (t, out)))) = writePos out
       \<and> used (snd (fst (ReadThread_produce rd (t, out)))) = used out
       \<and> nonEmptySignals (snd (fst (ReadThread_produce rd (t, out)))) = nonEmptySignals out"
  by (simp add: ReadThread_produce_fail[where rd=rd and out=out, OF nf r] putForWrite_def)

theorem C6_reader_failure_witness:
  "\<not> pool_full ex_decode_pool
   \<and> fst (ex_failing_reader (getForWrite ex_decode_pool)) = - 1
   \<and> snd (ReadThread_produce ex_failing_reader (projr ReadThread_ctor, ex_decode_pool)) = Throw
   \<and> rt_doneFlag (fst (fst (ReadThread_produce ex_failing_reader (projr ReadThread_ctor, ex_decode_pool)))) = True
   \<and> writePos (snd (fst (ReadThread_produce ex_failing_reader (projr ReadThread_ctor, ex_decode_pool)))) = writePos ex_decode_pool
   \<and> used (snd (fst (ReadThread_produce ex_failing_reader (projr ReadThread_ctor, ex_decode_pool)))) = used ex_decode_pool
   \<and> nonEmptySignals (snd (fst (ReadThread_produce ex_failing_reader (projr ReadThread_ctor, ex_decode_pool)))) = nonEmptySignals ex_decode_pool"
proof -
  have h1: "\<not> pool_full ex_decode_pool"
    by (simp add: ex_decode_pool_def BufferPool_ctor_def pool_full_def)
  have h2: "fst (ex_failing_reader (getForWrite ex_decode_pool)) = - 1"
    by (simp add: ex_failing_reader_def)
  show ?thesis
    using C6_reader_failure[where rd=ex_failing_reader and out=ex_decode_pool
        and t="projr ReadThread_ctor", OF h1 h2] h1 h2 by simp
qed

lemma ReadThread_ctor_eq:
  "ReadThread_ctor = Inr \<lparr> rt_count = 1, rt_doneFlag = False, rt_threads = 0 \<rparr>"
  by (simp add: ReadThread_ctor_def)

lemma start_threadCount_ctor:
  assumes bs: "1 \<le> bs" and nc: "1 \<le> nc"
  shows "\<exists>N p. start_threadCount bs nc = Inr N \<and> DecodeThreadPool_ctor N bs ds ts = Inr p
          \<and> count p = N \<and> 1 \<le> N \<and> threads p = 0"
proof -
  define N where "N = (bs - 1) div ((bs - 1) div nc + 1) + 1"
  have b: "1 \<le> N" "N \<le> bs" "((bs - 1) div N + 1) * N \<ge> bs" "((bs - 1) div N + 1) * (N - 1) < bs"
    using threadCount_bounds[OF bs nc] by (simp_all add: N_def)
  have tc: "start_threadCount bs nc = Inr N"
    using start_threadCount_eq[OF bs nc] b(2) by (simp add: N_def)
  obtain p where p: "DecodeThreadPool_ctor N bs ds ts = Inr p"
    using ctor_success[OF b(1) bs b(3,4)] by blast
  show ?thesis using tc p b(1) ctor_fields(1,7)[OF p] by blast
qed

lemma start_workers_ok:
  "\<forall>i \<in> set xs. NewWorkerThread i \<notin> set failing
   \<Longrightarrow> start_workers failing xs p = (p \<lparr> threads := threads p + length xs \<rparr>, Return ())"
  by (induction xs arbitrary: p) simp_all

lemma start_workers_fail:
  "\<exists>i \<in> set xs. NewWorkerThread i \<in> set failing
   \<Longrightarrow> snd (start_workers failing xs p) = Throw"
  by (induction xs arbitrary: p) auto

lemma DecodeThreadPool_start_none:
  "fst (DecodeThreadPool_start [] p) = p \<lparr> threads := threads p + nat (count p), manager := True \<rparr>"
  by (simp add: DecodeThreadPool_start_def Let_def start_workers_ok)

lemma DecodeThreadPool_start_ok:
  assumes "\<not> thread_failure failing (count p)"
  shows "DecodeThreadPool_start failing p
         = (p \<lparr> threads := threads p + nat (count p), manager := True \<rparr>, Return ())"
proof -
  from assms have w: "\<forall>i \<in> set [0 ..< nat (count p)]. NewWorkerThread i \<notin> set failing"
    and m: "NewManagerThread \<notin> set failing"
    by (auto simp: thread_failure_def)
  show ?thesis
    using m by (simp add: DecodeThreadPool_start_def Let_def start_workers_ok[OF w])
qed

lemma DecodeThreadPool_start_fail:
  assumes "thread_failure failing (count p)" and "NewReaderThread \<notin> set failing"
  shows "snd (DecodeThreadPool_start failing p) = Throw"
proof (cases "\<exists>i \<in> set [0 ..< nat (count p)]. NewWorkerThread i \<in> set failing")
  case True
  from start_workers_fail[OF True, of p] show ?thesis
    by (simp add: DecodeThreadPool_start_def Let_def)
next
  case False
  hence w: "\<forall>i \<in> set [0 ..< nat (count p)]. NewWorkerThread i \<notin> set failing" by blast
  from False assms have m: "NewManagerThread \<in> set failing"
    by (auto simp: thread_failure_def)
  show ?thesis
    using m by (simp add: DecodeThreadPool_start_def Let_def start_workers_ok[OF w])
qed

text \<open>
  C7, as the code has it. For a batch size of at least 1 and a value of
  \<open>hardware_concurrency()\<close> of at least 1, \<open>N\<close> being the thread count that \<open>start\<close>
  computes: when one of the four allocations of the \<open>try\<close> block fails, \<open>start\<close>
  returns -1 with \<open>_first\<close> true, \<open>_decodeThreads\<close> as it was and a read thread
  assigned by this call without a started thread; when no allocation fails, it returns
  0 with the \<open>N\<close> worker threads, the manager thread and the reader thread started; when
  the \<open>try\<close> block succeeds and the creation of one of these threads fails, it does not
  return: the exception leaves \<open>start\<close>. Whatever the outcome, every member assigned
  before the first failing allocation holds its new object.
\<close>

theorem C7_start_outcomes:
  assumes bs: "1 \<le> L_batchSize l" and nc: "1 \<le> numCores"
  shows "\<exists>N. start_threadCount (L_batchSize l) numCores = Inr N \<and> 1 \<le> N
       \<and> (try_failure failing \<longrightarrow>
            snd (Loader_start failing numCores l) = Return (- 1)
          \<and> first (fst (Loader_start failing numCores l)) = True
          \<and> decodeThreads (fst (Loader_start failing numCores l)) = decodeThreads l
          \<and> (readThread (fst (Loader_start failing numCores l)) = readThread l
              \<or> readThread (fst (Loader_start failing numCores l))
                 = Some \<lparr> rt_count = 1, rt_doneFlag = False, rt_threads = 0 \<rparr>))
       \<and> (\<not> try_failure failing \<and> \<not> thread_failure failing N \<longrightarrow>
            snd (Loader_start failing numCores l) = Return 0
          \<and> (\<exists>dp t. decodeThreads (fst (Loader_start failing numCores l)) = Some dp
                 \<and> count dp = N \<and> threads dp = nat N \<and> manager dp
                 \<and> readThread (fst (Loader_start failing numCores l)) = Some t
                 \<and> rt_threads t = 1))
       \<and> (\<not> try_failure failing \<and> thread_failure failing N \<longrightarrow>
            snd (Loader_start failing numCores l) = Throw)
       \<and> (NewReadBufs \<notin> set failing \<longrightarrow>
            readBufs (fst (Loader_start failing numCores l))
            = Some (BufferPool_ctor (c_mul (L_batchSize l) (L_datumSize l))
                      (c_mul (L_batchSize l) (L_targetSize l)) False))
       \<and> (try_failure failing \<and> NewReadBufs \<notin> set failing \<and> NewReadThread \<notin> set failing \<longrightarrow>
            readThread (fst (Loader_start failing numCores l))
            = Some \<lparr> rt_count = 1, rt_doneFlag = False, rt_threads = 0 \<rparr>)
       \<and> (NewReadBufs \<notin> set failing \<and> NewReadThread \<notin> set failing
            \<and> NewDecodeBufs \<notin> set failing \<longrightarrow>
            decodeBufs (fst (Loader_start failing numCores l))
            = Some (BufferPool_ctor (c_mul (L_batchSize l) (L_datumSize l))
                      (c_mul (L_batchSize l) (L_targetSize l)) (deviceType l \<noteq> CPU)))"
proof -
  obtain N p where tc: "start_threadCount (L_batchSize l) numCores = Inr N"
    and p: "DecodeThreadPool_ctor N (L_batchSize l) (L_datumSize l) (L_targetSize l) = Inr p"
    and c: "count p = N" "1 \<le> N" "threads p = 0"
    using start_threadCount_ctor[OF bs nc] by blast
  let ?r = "Loader_start failing numCores l"
  have A: "snd ?r = Return (- 1) \<and> first (fst ?r) = True
         \<and> decodeThreads (fst ?r) = decodeThreads l
         \<and> (readThread (fst ?r) = readThread l
             \<or> readThread (fst ?r) = Some \<lparr> rt_count = 1, rt_doneFlag = False, rt_threads = 0 \<rparr>)"
    if "try_failure failing"
    using that tc p
    by (auto simp: try_failure_def Loader_start_def Let_def ReadThread_ctor_eq)
  have B: "snd ?r = Return 0
         \<and> (\<exists>dp t. decodeThreads (fst ?r) = Some dp \<and> count dp = N \<and> threads dp = nat N
                \<and> manager dp \<and> readThread (fst ?r) = Some t \<and> rt_threads t = 1)"
    if t: "\<not> try_failure failing" and f: "\<not> thread_failure failing N"
  proof -
    from f have rd: "NewReaderThread \<notin> set failing" by (simp add: thread_failure_def)
    from f c have f': "\<not> thread_failure failing (count p)" by simp
    show ?thesis
      using t rd tc p c
      by (simp add: try_failure_def Loader_start_def Let_def ReadThread_ctor_eq
          DecodeThreadPool_start_ok[OF f'] ThreadPool_start_def)
  qed
  have C: "snd ?r = Throw"
    if t: "\<not> try_failure failing" and f: "thread_failure failing N"
  proof (cases "NewReaderThread \<in> set failing")
    case False
    from f c have "thread_failure failing (count p)" by simp
    from DecodeThreadPool_start_fail[OF this False] show ?thesis
      using t tc p
      by (simp add: try_failure_def Loader_start_def Let_def ReadThread_ctor_eq)
  next
    case True
    show ?thesis
      using t tc p True
      by (simp add: try_failure_def Loader_start_def Let_def ReadThread_ctor_eq
          ThreadPool_start_def split: exit.splits)
  qed
  have D: "readBufs (fst ?r)
           = Some (BufferPool_ctor (c_mul (L_batchSize l) (L_datumSize l))
                     (c_mul (L_batchSize l) (L_targetSize l)) False)"
    if "NewReadBufs \<notin> set failing"
    using that tc p
    by (simp add: Loader_start_def Let_def ReadThread_ctor_eq split: exit.splits)
  have E: "readThread (fst ?r) = Some \<lparr> rt_count = 1, rt_doneFlag = False, rt_threads = 0 \<rparr>"
    if "try_failure failing" "NewReadBufs \<notin> set failing" "NewReadThread \<notin> set failing"
    using that tc p
    by (auto simp: try_failure_def Loader_start_def Let_def ReadThread_ctor_eq)
  have F: "decodeBufs (fst ?r)
           = Some (BufferPool_ctor (c_mul (L_batchSize l) (L_datumSize l))
                     (c_mul (L_batchSize l) (L_targetSize l)) (deviceType l \<noteq> CPU))"
    if "NewReadBufs \<notin> set failing" "NewReadThread \<notin> set failing" "NewDecodeBufs \<notin> set failing"
    using that tc p
    by (simp add: Loader_start_def Let_def ReadThread_ctor_eq split: exit.splits)
  show ?thesis
    using tc c(2) A B C D E F by blast
qed

theorem C7_start_outcomes_witness:
  "1 \<le> L_batchSize (Loader_ctor 4 2 1 CPU) \<and> (1::int) \<le> 2
   \<and> start_threadCount (L_batchSize (Loader_ctor 4 2 1 CPU)) 2 = Inr 2
   \<and> try_failure [NewDecodeThreads]
   \<and> NewReadBufs \<notin> set [NewDecodeThreads]
   \<and> NewReadThread \<notin> set [NewDecodeThreads] \<and> NewDecodeBufs \<notin> set [NewDecodeThreads]
   \<and> snd (Loader_start [NewDecodeThreads] 2 (Loader_ctor 4 2 1 CPU)) = Return (- 1)
   \<and> decodeThreads (fst (Loader_start [NewDecodeThreads] 2 (Loader_ctor 4 2 1 CPU))) = None
   \<and> readThread (fst (Loader_start [NewDecodeThreads] 2 (Loader_ctor 4 2 1 CPU)))
      = Some \<lparr> rt_count = 1, rt_doneFlag = False, rt_threads = 0 \<rparr>
   \<and> decodeBufs (fst (Loader_start [NewDecodeThreads] 2 (Loader_ctor 4 2 1 CPU)))
      = Some (BufferPool_ctor 8 4 False)
   \<and> \<not> try_failure [] \<and> \<not> thread_failure [] 2
   \<and> snd (Loader_start [] 2 (Loader_ctor 4 2 1 CPU)) = Return 0
   \<and> \<not> try_failure [NewWorkerThread 1] \<and> thread_failure [NewWorkerThread 1] 2
   \<and> snd (Loader_start [NewWorkerThread 1] 2 (Loader_ctor 4 2 1 CPU)) = Throw"
proof -
  have h1: "1 \<le> L_batchSize (Loader_ctor 4 2 1 CPU)" by (simp add: Loader_ctor_def)
  have h2: "(1::int) \<le> 2" by simp
  have f: "L_batchSize (Loader_ctor 4 2 1 CPU) = 4" "L_datumSize (Loader_ctor 4 2 1 CPU) = 2"
    "L_targetSize (Loader_ctor 4 2 1 CPU) = 1" "deviceType (Loader_ctor 4 2 1 CPU) = CPU"
    "decodeThreads (Loader_ctor 4 2 1 CPU) = None"
    by (simp_all add: Loader_ctor_def)
  have tc: "start_threadCount (L_batchSize (Loader_ctor 4 2 1 CPU)) 2 = Inr 2"
    by (simp add: f start_threadCount_def c_div_def signed_divide_int_def)
  have g: "try_failure [NewDecodeThreads]" "\<not> try_failure []" "\<not> thread_failure [] 2"
    "\<not> try_failure [NewWorkerThread 1]" "thread_failure [NewWorkerThread 1] 2"
    by (simp_all add: try_failure_def thread_failure_def)
  have m: "c_mul 4 2 = 8" "c_mul 4 1 = 4" by (simp_all add: c_mul_def)
  show ?thesis
    using C7_start_outcomes[OF h1 h2, of "[NewDecodeThreads]"]
      C7_start_outcomes[OF h1 h2, of "[]"]
      C7_start_outcomes[OF h1 h2, of "[NewWorkerThread 1]"] h1 f g m
    unfolding tc by simp
qed

text \<open>
  C7, as the claim has it, fails. When the allocation of the decode pool fails,
  \<open>start\<close> returns -1 and the Loader, whose members were null before, holds the read
  pool and the read thread allocated before the failure. When the creation of the
  manager thread fails, \<open>start\<close> does not return -1: the exception leaves it, with
  the two worker threads started. When \<open>hardware_concurrency()\<close> is 0, or the batch
  size is 0, no allocation fails and \<open>start\<close> does not return 0: it divides by zero.
\<close>

theorem C7_partial_state_counterexample:
  "snd (Loader_start [NewDecodeBufs] 2 (Loader_ctor 4 2 1 CPU)) = Return (- 1)
   \<and> readBufs (Loader_ctor 4 2 1 CPU) = None
   \<and> readBufs (fst (Loader_start [NewDecodeBufs] 2 (Loader_ctor 4 2 1 CPU)))
      = Some (BufferPool_ctor 8 4 False)
   \<and> readThread (Loader_ctor 4 2 1 CPU) = None
   \<and> readThread (fst (Loader_start [NewDecodeBufs] 2 (Loader_ctor 4 2 1 CPU)))
      = Some \<lparr> rt_count = 1, rt_doneFlag = False, rt_threads = 0 \<rparr>
   \<and> snd (Loader_start [NewManagerThread] 2 (Loader_ctor 4 2 1 CPU)) = Throw
   \<and> map_option threads (decodeThreads (fst (Loader_start [NewManagerThread] 2 (Loader_ctor 4 2 1 CPU))))
      = Some 2
   \<and> snd (Loader_start [] 0 (Loader_ctor 4 2 1 CPU)) = Abort DivisionByZero
   \<and> snd (Loader_start [] 2 (Loader_ctor 0 2 1 CPU)) = Abort DivisionByZero"
  by code_simp

lemma Loader_start_first: "first (fst (Loader_start failing numCores l)) = True"
  by (simp add: Loader_start_def Let_def split: sum.splits exit.splits)

lemma Loader_next_first_True:
  assumes q: "decodeBufs l = Some q" and f: "first l"
  shows "Loader_next l = (l \<lparr> first := False \<rparr>, if pool_empty q then Blocked else Return ())"
  using q f by (simp add: Loader_next_def Let_def)

lemma Loader_next_first_False:
  assumes q: "decodeBufs l = Some q" and f: "\<not> first l"
  shows "Loader_next l = (l \<lparr> decodeBufs := Some (signalNonFull (advanceReadPos q)) \<rparr>,
            if pool_empty (signalNonFull (advanceReadPos q)) then Blocked else Return ())"
  using q f by (simp add: Loader_next_def Let_def)

lemma Loader_next_clears_first: "decodeBufs l = Some q \<Longrightarrow> first (fst (Loader_next l)) = False"
  by (cases "first l") (simp_all add: Loader_next_first_True Loader_next_first_False)

lemma Loader_next_keeps_pool: "decodeBufs l = Some q \<Longrightarrow> \<exists>q'. decodeBufs (fst (Loader_next l)) = Some q'"
  by (cases "first l") (simp_all add: Loader_next_first_True Loader_next_first_False)

lemma next_calls_pool:
  "decodeBufs l = Some q \<Longrightarrow> \<exists>q'. decodeBufs (next_calls env n l) = Some q'"
proof (induction n)
  case 0 thus ?case by simp
next
  case (Suc n)
  then obtain q1 where "decodeBufs (next_calls env n l) = Some q1" by blast
  thus ?case using Loader_next_keeps_pool by (simp add: Let_def)
qed

lemma next_calls_count:
  assumes env: "producer_side env" and q: "decodeBufs l = Some q" and f: "first l"
    and r: "readPos q < 2"
  shows "\<exists>q'. decodeBufs (next_calls env (Suc n) l) = Some q'
          \<and> \<not> first (next_calls env (Suc n) l)
          \<and> readPos q' = (readPos q + n) mod 2
          \<and> nonFullSignals q' = nonFullSignals q + n"
proof (induction n)
  case 0
  let ?l2 = "l \<lparr> decodeBufs := map_option (env 0) (decodeBufs l) \<rparr>"
  have q2: "decodeBufs ?l2 = Some (env 0 q)" and f2: "first ?l2" using q f by simp_all
  have e: "readPos (env 0 q) = readPos q" "nonFullSignals (env 0 q) = nonFullSignals q"
    using env by (simp_all add: producer_side_def)
  have step: "next_calls env (Suc 0) l = fst (Loader_next ?l2)"
    by (simp add: Let_def)
  show ?case
    unfolding step Loader_next_first_True[OF q2 f2]
    using e r q by simp
next
  case (Suc n)
  then obtain q1 where q1: "decodeBufs (next_calls env (Suc n) l) = Some q1"
    and f1: "\<not> first (next_calls env (Suc n) l)"
    and r1: "readPos q1 = (readPos q + n) mod 2"
    and s1: "nonFullSignals q1 = nonFullSignals q + n"
    by blast
  let ?l1 = "next_calls env (Suc n) l"
  let ?l2 = "?l1 \<lparr> decodeBufs := map_option (env (Suc n)) (decodeBufs ?l1) \<rparr>"
  have q2: "decodeBufs ?l2 = Some (env (Suc n) q1)" and f2: "\<not> first ?l2" using q1 f1 by simp_all
  have e: "readPos (env (Suc n) q1) = readPos q1" "nonFullSignals (env (Suc n) q1) = nonFullSignals q1"
    using env by (simp_all add: producer_side_def)
  have step: "next_calls env (Suc (Suc n)) l = fst (Loader_next ?l2)"
    by (simp add: Let_def)
  show ?case
    unfolding step Loader_next_first_False[OF q2 f2]
    using e r1 s1 f1
    by (simp del: next_calls.simps add: signalNonFull_def advanceReadPos_def mod_Suc_eq)
qed

text \<open>
  C8. \<open>start\<close> sets \<open>_first\<close>. A call of the zero-argument \<open>next\<close> that finds
  \<open>_first\<close> set clears it and leaves the decode pool as it is; a call that finds it
  clear advances the read cursor by one and signals \<open>nonFull\<close> once. Either call then
  returns if the pool is not empty and waits if it is, and \<open>_first\<close> is clear after
  it. So after the first \<open>n + 1\<close> calls since \<open>start\<close> the read cursor has advanced
  \<open>n\<close> times and \<open>nonFull\<close> has been signalled \<open>n\<close> times, whatever the
  producer side did to the pool in between.
\<close>

theorem C8_next_first_call_then_advance:
  assumes q: "decodeBufs l = Some q" and r: "readPos q < 2"
  shows "first (fst (Loader_start failing numCores l0)) = True
       \<and> (first l \<longrightarrow>
            fst (Loader_next l) = l \<lparr> first := False \<rparr>
          \<and> snd (Loader_next l) = (if pool_empty q then Blocked else Return ()))
       \<and> (\<not> first l \<longrightarrow>
            fst (Loader_next l) = l \<lparr> decodeBufs := Some (signalNonFull (advanceReadPos q)) \<rparr>
          \<and> readPos (signalNonFull (advanceReadPos q)) = (readPos q + 1) mod 2
          \<and> nonFullSignals (signalNonFull (advanceReadPos q)) = nonFullSignals q + 1
          \<and> snd (Loader_next l)
             = (if pool_empty (signalNonFull (advanceReadPos q)) then Blocked else Return ()))
       \<and> first (fst (Loader_next l)) = False
       \<and> (first l \<and> producer_side env \<longrightarrow>
            (\<exists>q'. decodeBufs (next_calls env (Suc n) l) = Some q'
                \<and> readPos q' = (readPos q + n) mod 2
                \<and> nonFullSignals q' = nonFullSignals q + n))"
proof -
  have a: "first l \<longrightarrow>
            fst (Loader_next l) = l \<lparr> first := False \<rparr>
          \<and> snd (Loader_next l) = (if pool_empty q then Blocked else Return ())"
    using Loader_next_first_True[OF q] by simp
  have b: "\<not> first l \<longrightarrow>
            fst (Loader_next l) = l \<lparr> decodeBufs := Some (signalNonFull (advanceReadPos q)) \<rparr>
          \<and> readPos (signalNonFull (advanceReadPos q)) = (readPos q + 1) mod 2
          \<and> nonFullSignals (signalNonFull (advanceReadPos q)) = nonFullSignals q + 1
          \<and> snd (Loader_next l)
             = (if pool_empty (signalNonFull (advanceReadPos q)) then Blocked else Return ())"
    using Loader_next_first_False[OF q] by (simp add: signalNonFull_def advanceReadPos_def)
  have c: "first l \<and> producer_side env \<longrightarrow>
            (\<exists>q'. decodeBufs (next_calls env (Suc n) l) = Some q'
                \<and> readPos q' = (readPos q + n) mod 2
                \<and> nonFullSignals q' = nonFullSignals q + n)"
    using next_calls_count[OF _ q _ r, of env n] by blast
  show ?thesis
    using Loader_start_first a b c Loader_next_clears_first[OF q] by blast
qed

lemma ex_producer_side: "producer_side ex_producer"
  by (simp add: producer_side_def ex_producer_def signalNonEmpty_def advanceWritePos_def)

theorem C8_next_first_call_then_advance_witness:
  "decodeBufs (fst (Loader_start [] 2 (Loader_ctor 4 2 1 CPU))) = Some ex_decode_pool
   \<and> readPos ex_decode_pool < 2
   \<and> first (fst (Loader_start [] 2 (Loader_ctor 4 2 1 CPU)))
   \<and> producer_side ex_producer
   \<and> fst (Loader_next (fst (Loader_start [] 2 (Loader_ctor 4 2 1 CPU))))
      = (fst (Loader_start [] 2 (Loader_ctor 4 2 1 CPU))) \<lparr> first := False \<rparr>
   \<and> snd (Loader_next (fst (Loader_start [] 2 (Loader_ctor 4 2 1 CPU)))) = Blocked
   \<and> \<not> first (fst (Loader_next (fst (Loader_start [] 2 (Loader_ctor 4 2 1 CPU)))))
   \<and> fst (Loader_next (fst (Loader_next (fst (Loader_start [] 2 (Loader_ctor 4 2 1 CPU))))))
      = (fst (Loader_next (fst (Loader_start [] 2 (Loader_ctor 4 2 1 CPU)))))
          \<lparr> decodeBufs := Some (signalNonFull (advanceReadPos ex_decode_pool)) \<rparr>
   \<and> (\<exists>q'. decodeBufs (next_calls ex_producer (Suc 3) (fst (Loader_start [] 2 (Loader_ctor 4 2 1 CPU)))) = Some q'
          \<and> readPos q' = 1 \<and> nonFullSignals q' = 3)"
proof -
  let ?l = "fst (Loader_start [] 2 (Loader_ctor 4 2 1 CPU))"
  have h1: "decodeBufs ?l = Some ex_decode_pool"
    by (simp add: Loader_start_def Loader_ctor_def Let_def ReadThread_ctor_def ex_decode_pool_def
        start_threadCount_def c_div_def signed_divide_int_def DecodeThreadPool_ctor_def
        c_mul_def split: exit.splits)
  have h2: "readPos ex_decode_pool < 2"
    by (simp add: ex_decode_pool_def BufferPool_ctor_def)
  have h3: "first ?l" by (simp add: Loader_start_first)
  have e: "pool_empty ex_decode_pool" "readPos ex_decode_pool = 0"
    "nonFullSignals ex_decode_pool = 0"
    by (simp_all add: ex_decode_pool_def BufferPool_ctor_def pool_empty_def)
  let ?l1 = "fst (Loader_next ?l)"
  have h4: "decodeBufs ?l1 = Some ex_decode_pool" and h5: "\<not> first ?l1"
    using Loader_next_first_True[OF h1 h3] h1 by simp_all
  show ?thesis
    using C8_next_first_call_then_advance[OF h1 h2, of "[]" 2 "Loader_ctor 4 2 1 CPU" ex_producer 3]
      C8_next_first_call_then_advance[OF h4 h2, of "[]" 2 "Loader_ctor 4 2 1 CPU" ex_producer 3]
      h1 h2 h3 h5 e ex_producer_side
    by (simp del: next_calls.simps)
qed

lemma memcpy_whole:
  "length dst \<le> length src \<Longrightarrow> memcpy dst 0 src 0 (int (length dst)) = Inr (take (length dst) src)"
  by (simp add: memcpy_def)

lemma Loader_next2_eq:
  assumes q: "decodeBufs l = Some q" and ne: "\<not> pool_empty q"
    and d: "length (data dataBuf) \<le> length (data (fst (getForRead q)))"
    and t: "length (data targetsBuf) \<le> length (data (snd (getForRead q)))"
  shows "Loader_next2 (dataBuf, targetsBuf) l
         = ((l \<lparr> decodeBufs := Some (signalNonFull (advanceReadPos q)) \<rparr>,
             dataBuf \<lparr> data := take (length (data dataBuf)) (data (fst (getForRead q))) \<rparr>,
             targetsBuf \<lparr> data := take (length (data targetsBuf)) (data (snd (getForRead q))) \<rparr>),
            Return ())"
  using q ne by (simp add: Loader_next2_def Let_def memcpy_whole[OF d] memcpy_whole[OF t])

lemma Loader_next2_first_irrelevant:
  "Loader_next2 dst (l \<lparr> first := b \<rparr>)
   = ((fst (fst (Loader_next2 dst l)) \<lparr> first := b \<rparr>, snd (fst (Loader_next2 dst l))),
      snd (Loader_next2 dst l))"
  by (simp add: Loader_next2_def Let_def split: option.splits sum.splits)

text \<open>
  C10. A call of the two-argument \<open>next\<close> that finds the decode pool non-empty copies
  \<open>dataBuf->_size\<close> bytes of the data half and \<open>targetsBuf->_size\<close> bytes of the
  target half of the pair at the read cursor into the caller's buffers, advances the
  read cursor by one and signals \<open>nonFull\<close> once. It does so whatever \<open>_first\<close> is,
  so also on the first call after \<open>start\<close>: it leaves \<open>_first\<close> as it was, and
  changing \<open>_first\<close> beforehand changes nothing else in its result.
\<close>

theorem C10_next2_always_advances:
  assumes q: "decodeBufs l = Some q" and ne: "\<not> pool_empty q"
    and d: "length (data dataBuf) \<le> length (data (fst (getForRead q)))"
    and t: "length (data targetsBuf) \<le> length (data (snd (getForRead q)))"
  shows "snd (Loader_next2 (dataBuf, targetsBuf) l) = Return ()
       \<and> decodeBufs (fst (fst (Loader_next2 (dataBuf, targetsBuf) l)))
          = Some (signalNonFull (advanceReadPos q))
       \<and> readPos (signalNonFull (advanceReadPos q)) = (readPos q + 1) mod 2
       \<and> nonFullSignals (signalNonFull (advanceReadPos q)) = nonFullSignals q + 1
       \<and> first (fst (fst (Loader_next2 (dataBuf, targetsBuf) l))) = first l
       \<and> data (fst (snd (fst (Loader_next2 (dataBuf, targetsBuf) l))))
          = take (length (data dataBuf)) (data (fst (getForRead q)))
       \<and> length (data (fst (snd (fst (Loader_next2 (dataBuf, targetsBuf) l)))))
          = length (data dataBuf)
       \<and> data (snd (snd (fst (Loader_next2 (dataBuf, targetsBuf) l))))
          = take (length (data targetsBuf)) (data (snd (getForRead q)))
       \<and> length (data (snd (snd (fst (Loader_next2 (dataBuf, targetsBuf) l)))))
          = length (data targetsBuf)
       \<and> Loader_next2 (dataBuf, targetsBuf) (l \<lparr> first := b \<rparr>)
          = ((fst (fst (Loader_next2 (dataBuf, targetsBuf) l)) \<lparr> first := b \<rparr>,
              snd (fst (Loader_next2 (dataBuf, targetsBuf) l))),
             snd (Loader_next2 (dataBuf, targetsBuf) l))"
  using d t Loader_next2_first_irrelevant[where dst="(dataBuf, targetsBuf)" and l=l and b=b]
  by (simp add: Loader_next2_eq[OF q ne d t] signalNonFull_def advanceReadPos_def)

text \<open>A decode pool whose pair at the read cursor holds the bytes of scenario S1.\<close>

lemma ex_full_pool_facts:
  "\<not> pool_empty (advanceWritePos (putForWrite ex_decode_pool ex_input))"
  "getForRead (advanceWritePos (putForWrite ex_decode_pool ex_input)) = ex_input"
  "readPos (advanceWritePos (putForWrite ex_decode_pool ex_input)) = 0"
  by (simp_all add: ex_decode_pool_def BufferPool_ctor_def advanceWritePos_def putForWrite_def
      pool_empty_def getForRead_def)

theorem C10_next2_always_advances_witness:
  "decodeBufs ((fst (Loader_start [] 2 (Loader_ctor 4 2 1 CPU)))
       \<lparr> decodeBufs := Some (advanceWritePos (putForWrite ex_decode_pool ex_input)) \<rparr>)
     = Some (advanceWritePos (putForWrite ex_decode_pool ex_input))
   \<and> \<not> pool_empty (advanceWritePos (putForWrite ex_decode_pool ex_input))
   \<and> length (data (fst ex_out)) \<le> length (data (fst (getForRead (advanceWritePos (putForWrite ex_decode_pool ex_input)))))
   \<and> length (data (snd ex_out)) \<le> length (data (snd (getForRead (advanceWritePos (putForWrite ex_decode_pool ex_input)))))
   \<and> first ((fst (Loader_start [] 2 (Loader_ctor 4 2 1 CPU)))
       \<lparr> decodeBufs := Some (advanceWritePos (putForWrite ex_decode_pool ex_input)) \<rparr>)
   \<and> snd (Loader_next2 ex_out ((fst (Loader_start [] 2 (Loader_ctor 4 2 1 CPU)))
       \<lparr> decodeBufs := Some (advanceWritePos (putForWrite ex_decode_pool ex_input)) \<rparr>)) = Return ()
   \<and> readPos (signalNonFull (advanceReadPos (advanceWritePos (putForWrite ex_decode_pool ex_input)))) = 1
   \<and> data (fst (snd (fst (Loader_next2 ex_out ((fst (Loader_start [] 2 (Loader_ctor 4 2 1 CPU)))
       \<lparr> decodeBufs := Some (advanceWritePos (putForWrite ex_decode_pool ex_input)) \<rparr>)))))
      = [0x10, 0x11, 0x20, 0x21, 0x30, 0x31, 0x40, 0x41]
   \<and> data (snd (snd (fst (Loader_next2 ex_out ((fst (Loader_start [] 2 (Loader_ctor 4 2 1 CPU)))
       \<lparr> decodeBufs := Some (advanceWritePos (putForWrite ex_decode_pool ex_input)) \<rparr>)))))
      = [0xA0, 0xA1, 0xA2, 0xA3]"
proof -
  let ?q = "advanceWritePos (putForWrite ex_decode_pool ex_input)"
  let ?l = "(fst (Loader_start [] 2 (Loader_ctor 4 2 1 CPU))) \<lparr> decodeBufs := Some ?q \<rparr>"
  have h1: "decodeBufs ?l = Some ?q" by simp
  have h2: "\<not> pool_empty ?q" by (rule ex_full_pool_facts)
  have o: "data (fst ex_out) = replicate 8 0" "data (snd ex_out) = replicate 4 0"
    by (simp_all add: ex_out_def BufferPool_ctor_def getForWrite_def)
  have i: "data (fst ex_input) = [0x10, 0x11, 0x20, 0x21, 0x30, 0x31, 0x40, 0x41]"
    "data (snd ex_input) = [0xA0, 0xA1, 0xA2, 0xA3]"
    by (simp_all add: ex_input_def)
  have h3: "length (data (fst ex_out)) \<le> length (data (fst (getForRead ?q)))"
    by (simp add: ex_full_pool_facts o i)
  have h4: "length (data (snd ex_out)) \<le> length (data (snd (getForRead ?q)))"
    by (simp add: ex_full_pool_facts o i)
  have h5: "first ?l" by (simp add: Loader_start_first)
  have ex: "ex_out = (fst ex_out, snd ex_out)" by simp
  show ?thesis
    using C10_next2_always_advances[OF h1 h2 h3 h4, where b=True] h1 h2 h3 h4 h5
    unfolding ex[symmetric]
    by (simp add: ex_full_pool_facts o i)
qed

lemma reachable_induct:
  assumes r: "reachable tr s0 s" and base: "P s0"
    and st: "\<And>s s'. reachable tr s0 s \<Longrightarrow> P s \<Longrightarrow> step tr s s' \<Longrightarrow> P s'"
  shows "P s"
  using r unfolding reachable_def
proof (induction rule: rtranclp_induct)
  case base show ?case by (rule assms(2))
next
  case (step y z)
  show ?case using st[of y z] step by (simp add: reachable_def)
qed

lemma work_begin_eq:
  "work_begin w p = Inr p' \<longleftrightarrow>
     w < length (startSignaled p) \<and> startSignaled p ! w = 1
     \<and> p' = p \<lparr> startSignaled := (startSignaled p)[w := 0] \<rparr>"
  by (auto simp: work_begin_def Let_def)

lemma work_end_eq:
  "work_end p = Inr p' \<longleftrightarrow>
     endSignaled p + 1 \<le> count p \<and> p' = p \<lparr> endSignaled := endSignaled p + 1 \<rparr>"
  by (auto simp: work_end_def Let_def)

lemma produce_finish_eq:
  "produce_finish (p, out, dev) = Inr (p', out', dev') \<longleftrightarrow>
     (\<exists>d. Matrix_transpose (data (fst (getForWrite out))) (batchSize p) (datumSize p) = Inr d
        \<and> p' = p \<lparr> endSignaled := 0, bufferIndex := (if bufferIndex p = 0 then 1 else 0) \<rparr>
        \<and> out' = signalNonEmpty (advanceWritePos
                    (putForWrite out ((fst (getForWrite out)) \<lparr> data := d \<rparr>, snd (getForWrite out))))
        \<and> dev' = dev @ [CopyData (bufferIndex p) d,
                         CopyLabels (bufferIndex p) (data (snd (getForWrite out)))])"
  by (auto simp: produce_finish_def Let_def split: sum.splits)

lemma Matrix_transpose_length:
  "Matrix_transpose d rows cols = Inr d' \<Longrightarrow> length d' = length d"
proof -
  assume a: "Matrix_transpose d rows cols = Inr d'"
  hence c: "0 \<le> rows" "0 \<le> cols" "rows * cols \<le> int (length d)"
    and e: "d' = map (\<lambda>k. d ! ((k mod nat rows) * nat cols + k div nat rows)) [0 ..< nat rows * nat cols]
                @ drop (nat rows * nat cols) d"
    by (auto simp: Matrix_transpose_def split: if_splits)
  have "nat rows * nat cols = nat (rows * cols)" using c by (simp add: nat_mult_distrib)
  hence "nat rows * nat cols \<le> length d" using c by linarith
  thus ?thesis by (simp add: e)
qed

lemma pool_ops_simps [simp]:
  "bufs (advanceWritePos q) = bufs q" "bufs (advanceReadPos q) = bufs q"
  "bufs (signalNonEmpty q) = bufs q" "bufs (signalNonFull q) = bufs q"
  "writePos (advanceReadPos q) = writePos q" "writePos (signalNonEmpty q) = writePos q"
  "writePos (signalNonFull q) = writePos q" "writePos (putForWrite q bp) = writePos q"
  "writePos (advanceWritePos q) = (writePos q + 1) mod 2"
  "bufs (putForWrite q bp) = (bufs q)[writePos q := bp]"
  by (simp_all add: advanceWritePos_def advanceReadPos_def signalNonEmpty_def signalNonFull_def
      putForWrite_def)

lemma getForWrite_simps [simp]:
  "getForWrite (advanceReadPos q) = getForWrite q"
  "getForWrite (signalNonFull q) = getForWrite q"
  "getForWrite (signalNonEmpty q) = getForWrite q"
  "writePos q < length (bufs q) \<Longrightarrow> getForWrite (putForWrite q bp) = bp"
  by (simp_all add: getForWrite_def)

lemma work_decode_lengths:
  assumes "work_decode tr w p inp ob = Completed ob' \<or> work_decode tr w p inp ob = NullItem ob'"
    and g: "geometry p w" and ds: "0 \<le> datumSize p" and tr: "exact_transform tr (datumSize p)"
  shows "length (data (fst ob')) = length (data (fst ob))"
    "length (data (snd ob')) = length (data (snd ob))"
  using work_decode_frame[OF g ds tr assms(1)] by (simp_all add: unchanged_outside_def)

lemma initial_eq:
  assumes "initial N bs ds ts pin = Inr s0"
  shows "\<exists>p. DecodeThreadPool_ctor N bs ds ts = Inr p
           \<and> s0 = \<lparr> pool = fst (DecodeThreadPool_start [] p),
                     outPool = BufferPool_ctor (c_mul bs ds) (c_mul bs ts) pin,
                     inputBuf = None, workers = replicate (nat N) W_Init,
                     mgr = M_Await, device = [] \<rparr>"
  using assms by (auto simp: initial_def split: sum.splits)

lemma start_fields [simp]:
  "count (fst (DecodeThreadPool_start [] p)) = count p"
  "batchSize (fst (DecodeThreadPool_start [] p)) = batchSize p"
  "datumSize (fst (DecodeThreadPool_start [] p)) = datumSize p"
  "targetSize (fst (DecodeThreadPool_start [] p)) = targetSize p"
  "itemsPerThread (fst (DecodeThreadPool_start [] p)) = itemsPerThread p"
  "endSignaled (fst (DecodeThreadPool_start [] p)) = endSignaled p"
  "bufferIndex (fst (DecodeThreadPool_start [] p)) = bufferIndex p"
  "startSignaled (fst (DecodeThreadPool_start [] p)) = startSignaled p"
  "ctor_inv (fst (DecodeThreadPool_start [] p)) = ctor_inv p"
  by (simp_all add: DecodeThreadPool_start_none ctor_inv_def)

lemma inv_device_initial:
  "initial N bs ds ts pin = Inr s0 \<Longrightarrow> inv_device s0"
  using initial_eq[of N bs ds ts pin s0] ctor_fields(6)
  by (auto simp: inv_device_def)

lemma inv_device_append:
  assumes ev: "even (length dev)"
    and al: "\<forall>k. 2 * k + 1 < length dev \<longrightarrow>
         (\<exists>d t. dev ! (2 * k) = CopyData (int (k mod 2)) d
              \<and> dev ! (2 * k + 1) = CopyLabels (int (k mod 2)) t)"
    and k: "2 * k + 1 < length (dev @ [CopyData (int ((length dev div 2) mod 2)) d0,
                                      CopyLabels (int ((length dev div 2) mod 2)) t0])"
  shows "\<exists>d t. (dev @ [CopyData (int ((length dev div 2) mod 2)) d0,
                       CopyLabels (int ((length dev div 2) mod 2)) t0]) ! (2 * k)
                = CopyData (int (k mod 2)) d
              \<and> (dev @ [CopyData (int ((length dev div 2) mod 2)) d0,
                       CopyLabels (int ((length dev div 2) mod 2)) t0]) ! (2 * k + 1)
                = CopyLabels (int (k mod 2)) t"
proof (cases "2 * k + 1 < length dev")
  case True
  with al show ?thesis by (simp add: nth_append)
next
  case False
  from ev obtain m where m: "length dev = 2 * m" by (auto elim: evenE)
  from False k m have km: "k = m" by simp
  show ?thesis using m km by (simp add: nth_append)
qed

lemma inv_device_step:
  assumes st: "step tr s s'" and inv: "inv_device s"
  shows "inv_device s'"
  using st
proof (cases rule: step.cases)
  case (manager_finish p' out' dev')
  from manager_finish(4) obtain d where
    p': "p' = (pool s) \<lparr> endSignaled := 0,
               bufferIndex := (if bufferIndex (pool s) = 0 then 1 else 0) \<rparr>"
    and dev': "dev' = device s @ [CopyData (bufferIndex (pool s)) d,
                 CopyLabels (bufferIndex (pool s)) (data (snd (getForWrite (outPool s))))]"
    by (auto simp: produce_finish_eq)
  from inv have ev: "even (length (device s))"
    and bi: "bufferIndex (pool s) = int ((length (device s) div 2) mod 2)"
    and al: "\<forall>k. 2 * k + 1 < length (device s) \<longrightarrow>
         (\<exists>d t. device s ! (2 * k) = CopyData (int (k mod 2)) d
              \<and> device s ! (2 * k + 1) = CopyLabels (int (k mod 2)) t)"
    by (auto simp: inv_device_def)
  from ev obtain m where m: "length (device s) = 2 * m" by (auto elim: evenE)
  have 1: "even (length dev')" using ev by (simp add: dev')
  have 2: "bufferIndex p' = int ((length dev' div 2) mod 2)"
    using bi m by (simp add: p' dev' mod_Suc)
  have 3: "\<forall>k. 2 * k + 1 < length dev' \<longrightarrow>
         (\<exists>d t. dev' ! (2 * k) = CopyData (int (k mod 2)) d
              \<and> dev' ! (2 * k + 1) = CopyLabels (int (k mod 2)) t)"
    unfolding dev' bi using inv_device_append[OF ev al] by blast
  show ?thesis using 1 2 3 by (simp add: inv_device_def manager_finish(1))
qed (use inv in \<open>auto simp: inv_device_def run_init_fields work_begin_eq work_end_eq produce_dispatch_def\<close>)

lemma exec_step: "exec tr l s = Some s' \<Longrightarrow> step tr s s'"
proof (cases l)
  case (L_init w)
  assume "exec tr l s = Some s'"
  with L_init show ?thesis
    by (auto split: if_splits sum.splits intro: step.worker_init)
next
  case (L_begin w)
  assume "exec tr l s = Some s'"
  with L_begin show ?thesis
    by (auto split: if_splits sum.splits intro!: step.worker_begin)
next
  case (L_decode w)
  assume "exec tr l s = Some s'"
  with L_decode show ?thesis
    by (auto split: if_splits option.splits loop_result.splits
        intro: step.worker_decode step.worker_null)
next
  case (L_end w)
  assume "exec tr l s = Some s'"
  with L_end show ?thesis
    by (auto split: if_splits sum.splits intro: step.worker_end)
next
  case (L_dispatch inp)
  assume "exec tr l s = Some s'"
  with L_dispatch show ?thesis
    by (auto split: if_splits intro: step.manager_dispatch)
next
  case L_finish
  assume "exec tr l s = Some s'"
  with L_finish show ?thesis
    by (auto split: if_splits sum.splits intro: step.manager_finish)
next
  case L_release
  assume "exec tr l s = Some s'"
  with L_release show ?thesis
    by (auto split: if_splits intro: step.consumer_release)
qed

lemma reachable_refl: "reachable tr s s"
  by (simp add: reachable_def)

lemma reachable_step: "reachable tr s0 s \<Longrightarrow> step tr s s' \<Longrightarrow> reachable tr s0 s'"
  by (simp add: reachable_def)

lemma reachable_trans: "reachable tr s0 s \<Longrightarrow> reachable tr s s' \<Longrightarrow> reachable tr s0 s'"
  by (simp add: reachable_def)

lemma run_schedule_reachable: "run_schedule tr ls s = Some s' \<Longrightarrow> reachable tr s s'"
proof (induction ls arbitrary: s)
  case Nil thus ?case by (simp add: reachable_refl)
next
  case (Cons l ls)
  then obtain s1 where e: "exec tr l s = Some s1" and r: "run_schedule tr ls s1 = Some s'"
    by (auto split: option.splits)
  have "reachable tr s s1" using exec_step[OF e] by (simp add: reachable_def)
  thus ?case using Cons.IH[OF r] by (rule reachable_trans)
qed

lemma ex_initial_eq: "initial 2 4 2 1 False = Inr ex_initial"
  unfolding ex_initial_def
  by (simp add: initial_def DecodeThreadPool_ctor_def c_div_def signed_divide_int_def)

lemma ex_final_run: "run_schedule pad_transform ex_schedule ex_initial = Some ex_final"
proof -
  have "run_schedule pad_transform ex_schedule ex_initial \<noteq> None" by code_simp
  thus ?thesis by (auto simp: ex_final_def)
qed

lemma ex_joined_run: "run_schedule pad_transform (butlast ex_schedule) ex_initial = Some ex_joined"
proof -
  have "run_schedule pad_transform (butlast ex_schedule) ex_initial \<noteq> None" by code_simp
  thus ?thesis by (auto simp: ex_joined_def)
qed

lemma ex_final_reachable: "reachable pad_transform ex_initial ex_final"
  using run_schedule_reachable[OF ex_final_run] .

lemma ex_joined_reachable: "reachable pad_transform ex_initial ex_joined"
  using run_schedule_reachable[OF ex_joined_run] .

lemma ex_final_device:
  "device ex_final = [CopyData 0 [0x10, 0x20, 0x30, 0x40, 0x11, 0x21, 0x31, 0x41],
                      CopyLabels 0 [0xA0, 0xA1, 0xA2, 0xA3]]"
  by code_simp

lemma inv_device_reachable:
  assumes i: "initial N bs ds ts pin = Inr s0" and r: "reachable tr s0 s"
  shows "inv_device s"
proof (rule reachable_induct[OF r])
  show "inv_device s0" using inv_device_initial[OF i] .
next
  fix s s' assume "inv_device s" "step tr s s'"
  thus "inv_device s'" using inv_device_step by blast
qed

text \<open>
  C9. \<open>_bufferIndex\<close> is 0 when the pool is constructed and 0 or 1 in every state of
  the pipeline. Each completion of \<open>produce\<close> appends one data copy and one label copy
  to what the device has received and toggles the index once. Hence the index is the
  number of minibatches produced so far modulo 2, and minibatch \<open>k\<close> (counting from
  0) was copied, data and labels, to slot \<open>k mod 2\<close>.
\<close>

theorem C9_device_slot_alternates:
  assumes i: "initial N bs ds ts pin = Inr s0" and r: "reachable tr s0 s"
  shows "bufferIndex (pool s0) = 0
       \<and> (bufferIndex (pool s) = 0 \<or> bufferIndex (pool s) = 1)
       \<and> even (length (device s))
       \<and> bufferIndex (pool s) = int ((length (device s) div 2) mod 2)
       \<and> (\<forall>k. 2 * k + 1 < length (device s) \<longrightarrow>
             (\<exists>d t. device s ! (2 * k) = CopyData (int (k mod 2)) d
                  \<and> device s ! (2 * k + 1) = CopyLabels (int (k mod 2)) t))
       \<and> (\<forall>p' out' dev'. produce_finish (pool s, outPool s, device s) = Inr (p', out', dev') \<longrightarrow>
             bufferIndex p' = 1 - bufferIndex (pool s)
           \<and> (\<exists>d t. dev' = device s @ [CopyData (bufferIndex (pool s)) d,
                                        CopyLabels (bufferIndex (pool s)) t]))"
proof -
  have d: "inv_device s" using inv_device_reachable[OF i r] .
  have b0: "bufferIndex (pool s0) = 0"
    using initial_eq[OF i] ctor_fields(6) by auto
  have bi: "bufferIndex (pool s) = int ((length (device s) div 2) mod 2)"
    using d by (simp add: inv_device_def)
  hence b01: "bufferIndex (pool s) = 0 \<or> bufferIndex (pool s) = 1" by presburger
  have tg: "\<forall>p' out' dev'. produce_finish (pool s, outPool s, device s) = Inr (p', out', dev') \<longrightarrow>
             bufferIndex p' = 1 - bufferIndex (pool s)
           \<and> (\<exists>d t. dev' = device s @ [CopyData (bufferIndex (pool s)) d,
                                        CopyLabels (bufferIndex (pool s)) t])"
    using b01 by (auto simp: produce_finish_eq)
  show ?thesis using d b0 b01 tg unfolding inv_device_def by blast
qed

theorem C9_device_slot_alternates_witness:
  "initial 2 4 2 1 False = Inr ex_initial
   \<and> reachable pad_transform ex_initial ex_final
   \<and> bufferIndex (pool ex_initial) = 0
   \<and> bufferIndex (pool ex_final) = 1
   \<and> length (device ex_final) = 2
   \<and> (\<exists>d t. device ex_final ! 0 = CopyData 0 d \<and> device ex_final ! 1 = CopyLabels 0 t)"
proof -
  have len: "length (device ex_final) = 2" by (simp add: ex_final_device)
  show ?thesis
    using C9_device_slot_alternates[OF ex_initial_eq ex_final_reachable]
      ex_initial_eq ex_final_reachable len
    by (simp add: ex_final_device)
qed

lemma run_done_upd [simp]:
  "run_done (p \<lparr> startSignaled := x \<rparr>) w = run_done p w"
  "run_done (p \<lparr> endSignaled := e \<rparr>) w = run_done p w"
  "run_done (p \<lparr> bufferIndex := b \<rparr>) w = run_done p w"
  by (simp_all add: run_done_def spec_startInd_def spec_endInd_def)

lemma ctor_inv_upd [simp]:
  "length x = length (startSignaled p) \<Longrightarrow> ctor_inv (p \<lparr> startSignaled := x \<rparr>) = ctor_inv p"
  "ctor_inv (p \<lparr> endSignaled := e \<rparr>) = ctor_inv p"
  "ctor_inv (p \<lparr> bufferIndex := b \<rparr>) = ctor_inv p"
  by (auto simp: ctor_inv_def)

lemma run_init_other_run_done:
  assumes r: "run_init w p = Inr p'" and g: "run_done p v" and ne: "v \<noteq> w"
  shows "run_done p' v"
  using r g ne
  by (auto simp: run_init_def Let_def run_done_def spec_startInd_def spec_endInd_def
      split: if_splits)

lemma work_data_length:
  "work_data tr inD dsz i e off out = Completed out' \<or> work_data tr inD dsz i e off out = NullItem out'
   \<Longrightarrow> length out' = length out"
proof (induction tr inD dsz i e off out rule: work_data.induct)
  case (1 tr inData dsz i endI dataBuf out)
  show ?case
  proof (cases "i < endI")
    case False
    with "1.prems" show ?thesis by auto
  next
    case True
    show ?thesis
    proof (cases "getItem inData i")
      case None
      with True "1.prems" show ?thesis by auto
    next
      case (Some item)
      show ?thesis
      proof (cases "store out dataBuf (tr (item_bytes inData item) dsz)")
        case (Inl f)
        with True Some "1.prems" show ?thesis by simp
      next
        case (Inr o1)
        from True Some Inr "1.prems"
        have rec: "work_data tr inData dsz (i + 1) endI (dataBuf + dsz) o1 = Completed out'
                 \<or> work_data tr inData dsz (i + 1) endI (dataBuf + dsz) o1 = NullItem out'"
          by simp
        show ?thesis using "1.IH"[OF True Some Inr rec] store_length[OF Inr] by simp
      qed
    qed
  qed
qed

lemma work_targets_length: "work_targets w p inT outT = Inr t \<Longrightarrow> length t = length outT"
  using work_targets_frame[of w p inT outT t] by (simp add: unchanged_outside_def)

lemma work_decode_length:
  assumes a: "work_decode tr w p inp ob = Completed ob' \<or> work_decode tr w p inp ob = NullItem ob'"
  shows "length (data (fst ob')) = length (data (fst ob))"
    "length (data (snd ob')) = length (data (snd ob))"
proof -
  let ?wd = "work_data tr (fst inp) (datumSize p) (startInds p ! w) (endInds p ! w)
                (dataOffsets p ! w) (data (fst ob))"
  from a obtain d where d: "?wd = Completed d \<or> ?wd = NullItem d" and d': "data (fst ob') = d"
    by (auto simp del: work_data.simps simp: work_decode_def
        split: if_splits loop_result.splits sum.splits)
  show "length (data (fst ob')) = length (data (fst ob))"
    using work_data_length[OF d] d' by simp
  from a have "data (snd ob') = data (snd ob)
      \<or> work_targets w p (snd inp) (data (snd ob)) = Inr (data (snd ob'))"
    by (auto simp del: work_data.simps simp: work_decode_def
        split: if_splits loop_result.splits sum.splits)
  thus "length (data (snd ob')) = length (data (snd ob))"
    using work_targets_length by auto
qed

lemma inv_static_initial:
  assumes i: "initial N bs ds ts pin = Inr s0"
  shows "inv_static N bs ds ts s0"
proof -
  from initial_eq[OF i] obtain p where p: "DecodeThreadPool_ctor N bs ds ts = Inr p"
    and s0: "s0 = \<lparr> pool = fst (DecodeThreadPool_start [] p),
                     outPool = BufferPool_ctor (c_mul bs ds) (c_mul bs ts) pin,
                     inputBuf = None, workers = replicate (nat N) W_Init,
                     mgr = M_Await, device = [] \<rparr>" by blast
  have k: "\<And>k. k < 2 \<Longrightarrow> replicate 2 x ! k = x" for x :: BufferPair
    by simp
  show ?thesis
    using ctor_fields[OF p]
    by (simp add: s0 inv_static_def BufferPool_ctor_def k)
qed

lemma inv_static_step:
  assumes st: "step tr s s'" and inv: "inv_static N bs ds ts s"
  shows "inv_static N bs ds ts s'"
  using st
proof (cases rule: step.cases)
  case (worker_init w p')
  note f = run_init_fields[OF worker_init(4)]
  have g: "run_done p' w"
    using run_init_run_done[OF _ worker_init(4)] inv by (simp add: inv_static_def)
  have go: "\<And>v. v \<noteq> w \<Longrightarrow> run_done (pool s) v \<Longrightarrow> run_done p' v"
    using run_init_other_run_done[OF worker_init(4)] by blast
  show ?thesis
    using inv f g go
    by (auto simp: inv_static_def worker_init(1) nth_list_update)
next
  case (worker_begin w p')
  hence p': "p' = (pool s) \<lparr> startSignaled := (startSignaled (pool s))[w := 0] \<rparr>"
    by (simp add: work_begin_eq)
  show ?thesis
    using inv worker_begin(2,3)
    by (auto simp: inv_static_def worker_begin(1) p' nth_list_update)
next
  case (worker_decode w inp ob)
  from inv worker_decode(2,3) have g: "run_done (pool s) w" by (auto simp: inv_static_def)
  from inv have wp: "writePos (outPool s) < 2" and lb: "length (bufs (outPool s)) = 2"
    by (auto simp: inv_static_def)
  have len: "length (data (fst ob)) = length (data (fst (getForWrite (outPool s))))"
      "length (data (snd ob)) = length (data (snd (getForWrite (outPool s))))"
    using work_decode_length[OF disjI1[OF worker_decode(5)]] by simp_all
  show ?thesis
    using inv len worker_decode(2,3)
    by (auto simp: inv_static_def worker_decode(1) nth_list_update getForWrite_def)
next
  case (worker_null w inp ob)
  from inv worker_null(2,3) have g: "run_done (pool s) w" by (auto simp: inv_static_def)
  have len: "length (data (fst ob)) = length (data (fst (getForWrite (outPool s))))"
      "length (data (snd ob)) = length (data (snd (getForWrite (outPool s))))"
    using work_decode_length[OF disjI2[OF worker_null(5)]] by simp_all
  show ?thesis
    using inv len worker_null(2,3)
    by (auto simp: inv_static_def worker_null(1) nth_list_update getForWrite_def)
next
  case (worker_end w p')
  hence p': "p' = (pool s) \<lparr> endSignaled := endSignaled (pool s) + 1 \<rparr>"
    by (simp add: work_end_eq)
  show ?thesis
    using inv worker_end(2,3)
    by (auto simp: inv_static_def worker_end(1) p' nth_list_update)
next
  case (manager_dispatch inp)
  let ?p' = "produce_dispatch (pool s)"
  show ?thesis
    using inv
    by (auto simp: inv_static_def manager_dispatch(1) produce_dispatch_def)
next
  case (manager_finish p' out' dev')
  from manager_finish(4) obtain d where
    d: "Matrix_transpose (data (fst (getForWrite (outPool s)))) (batchSize (pool s)) (datumSize (pool s)) = Inr d"
    and p': "p' = (pool s) \<lparr> endSignaled := 0,
               bufferIndex := (if bufferIndex (pool s) = 0 then 1 else 0) \<rparr>"
    and out': "out' = signalNonEmpty (advanceWritePos
                    (putForWrite (outPool s) ((fst (getForWrite (outPool s))) \<lparr> data := d \<rparr>,
                       snd (getForWrite (outPool s)))))"
    by (auto simp: produce_finish_eq)
  have len: "length d = length (data (fst (getForWrite (outPool s))))"
    using Matrix_transpose_length[OF d] .
  show ?thesis
    using inv len
    by (auto simp: inv_static_def manager_finish(1) p' out' nth_list_update getForWrite_def)
next
  case consumer_release
  show ?thesis using inv by (auto simp: inv_static_def consumer_release(1))
qed

lemma inv_static_reachable:
  assumes i: "initial N bs ds ts pin = Inr s0" and r: "reachable tr s0 s"
  shows "inv_static N bs ds ts s"
proof (rule reachable_induct[OF r])
  show "inv_static N bs ds ts s0" using inv_static_initial[OF i] .
next
  fix s s' assume "inv_static N bs ds ts s" "step tr s s'"
  thus "inv_static N bs ds ts s'" using inv_static_step by blast
qed

lemma present_cong:
  "itemsPerThread p' = itemsPerThread p \<Longrightarrow> batchSize p' = batchSize p
   \<Longrightarrow> present p' inp w = present p inp w"
  by (simp add: present_def spec_startInd_def spec_endInd_def)

lemma completed_finite: "finite (completed s inp)" and
  completed_subset: "completed s inp \<subseteq> {..< length (workers s)}"
  by (auto simp: completed_def finished_def)

lemma card_completed_le: "card (completed s inp) \<le> length (workers s)"
  using card_mono[OF _ completed_subset[of s inp]] by simp

lemma completed_all:
  assumes "length (workers s) \<le> card (completed s inp)" and w: "w < length (workers s)"
  shows "w \<in> completed s inp"
proof -
  have "card (completed s inp) = card {..< length (workers s)}"
    using assms(1) card_completed_le[of s inp] by simp
  hence "completed s inp = {..< length (workers s)}"
    using card_subset_eq[OF _ completed_subset[of s inp]] by simp
  thus ?thesis using w by simp
qed

lemma work_data_present:
  "work_data tr inD dsz i e off out = Completed out'
   \<Longrightarrow> \<forall>j. i \<le> j \<and> j < e \<longrightarrow> getItem inD j \<noteq> None"
proof (induction tr inD dsz i e off out rule: work_data.induct)
  case (1 tr inData dsz i endI dataBuf out)
  show ?case
  proof (cases "i < endI")
    case False
    thus ?thesis by auto
  next
    case True
    show ?thesis
    proof (cases "getItem inData i")
      case None
      with True "1.prems" show ?thesis by simp
    next
      case (Some item)
      show ?thesis
      proof (cases "store out dataBuf (tr (item_bytes inData item) dsz)")
        case (Inl f)
        with True Some "1.prems" show ?thesis by simp
      next
        case (Inr o1)
        from True Some Inr "1.prems"
        have rec: "work_data tr inData dsz (i + 1) endI (dataBuf + dsz) o1 = Completed out'"
          by simp
        have ih: "\<forall>j. i + 1 \<le> j \<and> j < endI \<longrightarrow> getItem inData j \<noteq> None"
          using "1.IH"[OF True Some Inr rec] .
        show ?thesis
        proof (intro allI impI)
          fix j assume j: "i \<le> j \<and> j < endI"
          show "getItem inData j \<noteq> None"
          proof (cases "j = i")
            case True thus ?thesis using Some by simp
          next
            case False
            hence "i + 1 \<le> j" using j by simp
            thus ?thesis using ih j by blast
          qed
        qed
      qed
    qed
  qed
qed

lemma work_decode_present:
  assumes c: "work_decode tr w p inp ob = Completed ob'" and g: "run_done p w"
  shows "present p inp w"
proof -
  let ?wd = "work_data tr (fst inp) (datumSize p) (spec_startInd p w) (spec_endInd p w)
                (c_mul (spec_startInd p w) (datumSize p)) (data (fst ob))"
  from c g obtain d where "?wd = Completed d"
    by (auto simp del: work_data.simps simp: work_decode_def run_done_def
        split: if_splits loop_result.splits sum.splits)
  from work_data_present[OF this] show ?thesis by (simp add: present_def)
qed

lemma present_upd [simp]:
  "present (p \<lparr> startSignaled := x \<rparr>) inp w = present p inp w"
  "present (p \<lparr> endSignaled := e \<rparr>) inp w = present p inp w"
  "present (p \<lparr> bufferIndex := b \<rparr>) inp w = present p inp w"
  by (simp_all add: present_def spec_startInd_def spec_endInd_def)

lemma inv_signals_worker_step:
  assumes sg: "inv_signals s" and w: "w < length (workers s)"
    and W': "workers s' = (workers s)[w := x]"
    and S': "\<And>u. u \<noteq> w \<Longrightarrow> startSignaled (pool s') ! u = startSignaled (pool s) ! u"
    and ok: "wok (mgr s) x (startSignaled (pool s') ! w)"
    and m: "mgr s' = mgr s" and ib: "inputBuf s' = inputBuf s"
    and e: "0 \<le> endSignaled (pool s')" "mgr s = M_Await \<longrightarrow> endSignaled (pool s') = 0"
  shows "inv_signals s'"
  unfolding inv_signals_def
proof (intro conjI allI impI)
  show "0 \<le> endSignaled (pool s')" by (rule e)
  show "endSignaled (pool s') = 0" if "mgr s' = M_Await" using that e(2) m by simp
  show "inputBuf s' \<noteq> None" if "mgr s' = M_Dispatched"
    using that sg m ib by (simp add: inv_signals_def)
  fix v assume v: "v < length (workers s')"
  show "wok (mgr s') (workers s' ! v) (startSignaled (pool s') ! v)"
  proof (cases "v = w")
    case True
    thus ?thesis using ok w by (simp add: W' m)
  next
    case False
    have "wok (mgr s) (workers s ! v) (startSignaled (pool s) ! v)"
      using sg v by (simp add: inv_signals_def W')
    thus ?thesis using False S'[OF False] by (simp add: W' m)
  qed
qed

lemma inv_signalsD:
  assumes "inv_signals s" "w < length (workers s)"
  shows "wok (mgr s) (workers s ! w) (startSignaled (pool s) ! w)"
  using assms by (simp add: inv_signals_def)

lemma completed_local:
  assumes W': "workers s' = (workers s)[w := x]" and w: "w < length (workers s)"
    and S': "\<And>u. u \<noteq> w \<Longrightarrow> startSignaled (pool s') ! u = startSignaled (pool s) ! u"
    and pres: "\<And>v. present (pool s') inp v = present (pool s) inp v"
  shows "completed s' inp - {w} = completed s inp - {w}"
  using W' S' pres by (auto simp: completed_def finished_def nth_list_update)

lemma completed_same:
  assumes loc: "completed s' inp - {w} = completed s inp - {w}"
    and a: "w \<notin> completed s inp" and b: "w \<notin> completed s' inp"
  shows "completed s' inp = completed s inp"
  using loc a b by blast

lemma inv_sync_worker_init:
  assumes sta: "inv_static N bs ds ts s" and sg: "inv_signals s" and ct: "inv_count s"
    and w: "w < length (workers s)" and wi: "workers s ! w = W_Init"
    and r: "run_init w (pool s) = Inr p'"
    and s': "s' = s \<lparr> pool := p', workers := (workers s)[w := W_Idle] \<rparr>"
  shows "inv_signals s' \<and> inv_count s'"
proof -
  note f = run_init_fields(5,1,2,6,7)[OF r]
  have pc: "\<And>inp v. present (pool s') inp v = present (pool s) inp v"
    by (rule present_cong) (simp_all add: s' f)
  have ok0: "wok (mgr s) W_Init (startSignaled (pool s) ! w)"
    using inv_signalsD[OF sg w] wi by simp
  hence ok: "wok (mgr s) W_Idle (startSignaled (pool s') ! w)"
    by (cases "mgr s") (auto simp: wok_def s' f)
  have e: "0 \<le> endSignaled (pool s')" "mgr s = M_Await \<longrightarrow> endSignaled (pool s') = 0"
    using sg by (simp_all add: inv_signals_def s' f)
  have 1: "inv_signals s'"
    by (rule inv_signals_worker_step[OF sg w _ _ ok _ _ e]) (simp_all add: s' f)
  have 2: "inv_count s'"
    unfolding inv_count_def
  proof (intro impI allI conjI)
    fix inp assume a: "mgr s' = M_Dispatched" "inputBuf s' = Some inp"
    hence m: "mgr s = M_Dispatched" and ib: "inputBuf s = Some inp" by (simp_all add: s')
    have s1: "startSignaled (pool s) ! w = 1" using ok0 m by (simp add: wok_def)
    have loc: "completed s' inp - {w} = completed s inp - {w}"
      by (rule completed_local[OF _ w _ pc]) (simp_all add: s' f)
    have "w \<notin> completed s inp" using wi by (simp add: completed_def finished_def)
    moreover have "w \<notin> completed s' inp"
      using s1 w by (simp add: completed_def finished_def s' f)
    ultimately have "completed s' inp = completed s inp" using completed_same[OF loc] by blast
    thus "endSignaled (pool s') \<le> int (card (completed s' inp))"
      using ct m ib by (simp add: inv_count_def s' f)
  next
    fix inp v assume a: "mgr s' = M_Dispatched" "inputBuf s' = Some inp"
      "v < length (workers s')" "workers s' ! v = W_Signal"
    hence m: "mgr s = M_Dispatched" and ib: "inputBuf s = Some inp"
      and v: "v < length (workers s)" by (simp_all add: s')
    have "v \<noteq> w" using a(4) w by (auto simp: s')
    hence "workers s ! v = W_Signal" using a(4) by (simp add: s')
    hence "present (pool s) inp v" using ct m ib v by (simp add: inv_count_def)
    thus "present (pool s') inp v" by (simp add: pc)
  qed
  show ?thesis using 1 2 ..
qed

lemma inv_count_same:
  assumes ct: "inv_count s" and m: "mgr s' = mgr s" and ib: "inputBuf s' = inputBuf s"
    and len: "length (workers s') = length (workers s)"
    and e: "endSignaled (pool s') = endSignaled (pool s)"
    and pc: "\<And>inp v. present (pool s') inp v = present (pool s) inp v"
    and sub: "\<And>inp. mgr s = M_Dispatched \<Longrightarrow> inputBuf s = Some inp
                \<Longrightarrow> completed s inp \<subseteq> completed s' inp"
    and sig: "\<And>inp v. mgr s = M_Dispatched \<Longrightarrow> inputBuf s = Some inp \<Longrightarrow> v < length (workers s)
                \<Longrightarrow> workers s' ! v = W_Signal
                \<Longrightarrow> workers s ! v = W_Signal \<or> present (pool s) inp v"
  shows "inv_count s'"
  unfolding inv_count_def
proof (intro impI allI conjI)
  fix inp assume a: "mgr s' = M_Dispatched" "inputBuf s' = Some inp"
  hence m': "mgr s = M_Dispatched" and ib': "inputBuf s = Some inp" by (simp_all add: m ib)
  have "card (completed s inp) \<le> card (completed s' inp)"
    using card_mono[OF completed_finite sub[OF m' ib']] .
  moreover have "endSignaled (pool s) \<le> int (card (completed s inp))"
    using ct m' ib' by (simp add: inv_count_def)
  ultimately show "endSignaled (pool s') \<le> int (card (completed s' inp))"
    using e by linarith
next
  fix inp v assume a: "mgr s' = M_Dispatched" "inputBuf s' = Some inp"
    "v < length (workers s')" "workers s' ! v = W_Signal"
  hence m': "mgr s = M_Dispatched" and ib': "inputBuf s = Some inp"
    and v: "v < length (workers s)" by (simp_all add: m ib len)
  from sig[OF m' ib' v a(4)] have "present (pool s) inp v"
    using ct m' ib' v by (auto simp: inv_count_def)
  thus "present (pool s') inp v" by (simp add: pc)
qed

lemma wok_not_await:
  "wok m st v \<Longrightarrow> st = W_Busy \<or> st = W_Signal \<or> v \<noteq> 0 \<Longrightarrow> m = M_Dispatched"
  by (cases m) (auto simp: wok_def)

lemma inv_sync_worker_begin:
  assumes sta: "inv_static N bs ds ts s" and sg: "inv_signals s" and ct: "inv_count s"
    and w: "w < length (workers s)" and wi: "workers s ! w = W_Idle"
    and r: "work_begin w (pool s) = Inr p'"
    and s': "s' = s \<lparr> pool := p', workers := (workers s)[w := W_Busy] \<rparr>"
  shows "inv_signals s' \<and> inv_count s'"
proof -
  from r have p': "p' = (pool s) \<lparr> startSignaled := (startSignaled (pool s))[w := 0] \<rparr>"
    and s1: "startSignaled (pool s) ! w = 1" and wl: "w < length (startSignaled (pool s))"
    by (simp_all add: work_begin_eq)
  have md: "mgr s = M_Dispatched" using wok_not_await[OF inv_signalsD[OF sg w]] s1 by simp
  have ok: "wok (mgr s) W_Busy (startSignaled (pool s') ! w)"
    using wl md by (simp add: wok_def s' p')
  have e: "0 \<le> endSignaled (pool s')" "mgr s = M_Await \<longrightarrow> endSignaled (pool s') = 0"
    using sg by (simp_all add: inv_signals_def s' p')
  have 1: "inv_signals s'"
    by (rule inv_signals_worker_step[OF sg w _ _ ok _ _ e]) (simp_all add: s' p')
  have pc: "\<And>inp v. present (pool s') inp v = present (pool s) inp v"
    by (simp add: s' p')
  have 2: "inv_count s'"
  proof (rule inv_count_same[OF ct _ _ _ _ pc])
    fix inp
    have loc: "completed s' inp - {w} = completed s inp - {w}"
      by (rule completed_local[OF _ w _ pc]) (simp_all add: s' p')
    have "w \<notin> completed s inp" using s1 by (simp add: completed_def finished_def)
    thus "completed s inp \<subseteq> completed s' inp" using loc by blast
  next
    fix inp v assume "v < length (workers s)" "workers s' ! v = W_Signal"
    thus "workers s ! v = W_Signal \<or> present (pool s) inp v"
      by (cases "v = w") (simp_all add: s')
  qed (simp_all add: s' p')
  show ?thesis using 1 2 ..
qed

lemma inv_sync_worker_decode:
  assumes sta: "inv_static N bs ds ts s" and sg: "inv_signals s" and ct: "inv_count s"
    and w: "w < length (workers s)" and wi: "workers s ! w = W_Busy"
    and ib: "inputBuf s = Some inp"
    and r: "work_decode tr w (pool s) inp (getForWrite (outPool s)) = Completed ob"
    and s': "s' = s \<lparr> outPool := putForWrite (outPool s) ob,
                       workers := (workers s)[w := W_Signal] \<rparr>"
  shows "inv_signals s' \<and> inv_count s'"
proof -
  have wk: "wok (mgr s) W_Busy (startSignaled (pool s) ! w)"
    using inv_signalsD[OF sg w] wi by simp
  hence ok: "wok (mgr s) W_Signal (startSignaled (pool s') ! w)"
    by (simp add: wok_def s')
  have e: "0 \<le> endSignaled (pool s')" "mgr s = M_Await \<longrightarrow> endSignaled (pool s') = 0"
    using sg by (simp_all add: inv_signals_def s')
  have 1: "inv_signals s'"
    by (rule inv_signals_worker_step[OF sg w _ _ ok _ _ e]) (simp_all add: s')
  have g: "run_done (pool s) w" using sta w wi by (simp add: inv_static_def)
  have pr: "present (pool s) inp w" using work_decode_present[OF r g] .
  have pc: "\<And>inp v. present (pool s') inp v = present (pool s) inp v"
    by (simp add: s')
  have 2: "inv_count s'"
  proof (rule inv_count_same[OF ct _ _ _ _ pc])
    fix i
    have loc: "completed s' i - {w} = completed s i - {w}"
      by (rule completed_local[OF _ w _ pc]) (simp_all add: s')
    have "w \<notin> completed s i" using wi by (simp add: completed_def finished_def)
    thus "completed s i \<subseteq> completed s' i" using loc by blast
  next
    fix i v assume "inputBuf s = Some i" "v < length (workers s)" "workers s' ! v = W_Signal"
    thus "workers s ! v = W_Signal \<or> present (pool s) i v"
      using pr ib by (cases "v = w") (simp_all add: s')
  qed (simp_all add: s')
  show ?thesis using 1 2 ..
qed

lemma inv_sync_worker_null:
  assumes sta: "inv_static N bs ds ts s" and sg: "inv_signals s" and ct: "inv_count s"
    and w: "w < length (workers s)" and wi: "workers s ! w = W_Busy"
    and s': "s' = s \<lparr> outPool := putForWrite (outPool s) ob,
                       workers := (workers s)[w := W_Idle] \<rparr>"
  shows "inv_signals s' \<and> inv_count s'"
proof -
  have wk: "wok (mgr s) W_Busy (startSignaled (pool s) ! w)"
    using inv_signalsD[OF sg w] wi by simp
  have md: "mgr s = M_Dispatched" using wok_not_await[OF wk] by simp
  have ok: "wok (mgr s) W_Idle (startSignaled (pool s') ! w)"
    using wk md by (simp add: wok_def s')
  have e: "0 \<le> endSignaled (pool s')" "mgr s = M_Await \<longrightarrow> endSignaled (pool s') = 0"
    using sg by (simp_all add: inv_signals_def s')
  have 1: "inv_signals s'"
    by (rule inv_signals_worker_step[OF sg w _ _ ok _ _ e]) (simp_all add: s')
  have pc: "\<And>inp v. present (pool s') inp v = present (pool s) inp v"
    by (simp add: s')
  have 2: "inv_count s'"
  proof (rule inv_count_same[OF ct _ _ _ _ pc])
    fix i
    have loc: "completed s' i - {w} = completed s i - {w}"
      by (rule completed_local[OF _ w _ pc]) (simp_all add: s')
    have "w \<notin> completed s i" using wi by (simp add: completed_def finished_def)
    thus "completed s i \<subseteq> completed s' i" using loc by blast
  next
    fix i v assume "v < length (workers s)" "workers s' ! v = W_Signal"
    thus "workers s ! v = W_Signal \<or> present (pool s) i v"
      by (cases "v = w") (simp_all add: s')
  qed (simp_all add: s')
  show ?thesis using 1 2 ..
qed

lemma inv_sync_worker_end:
  assumes sta: "inv_static N bs ds ts s" and sg: "inv_signals s" and ct: "inv_count s"
    and w: "w < length (workers s)" and wi: "workers s ! w = W_Signal"
    and r: "work_end (pool s) = Inr p'"
    and s': "s' = s \<lparr> pool := p', workers := (workers s)[w := W_Idle] \<rparr>"
  shows "inv_signals s' \<and> inv_count s'"
proof -
  from r have p': "p' = (pool s) \<lparr> endSignaled := endSignaled (pool s) + 1 \<rparr>"
    by (simp add: work_end_eq)
  have wk: "wok (mgr s) W_Signal (startSignaled (pool s) ! w)"
    using inv_signalsD[OF sg w] wi by simp
  have md: "mgr s = M_Dispatched" using wok_not_await[OF wk] by simp
  have s0: "startSignaled (pool s) ! w = 0" using wk by (simp add: wok_def)
  have ok: "wok (mgr s) W_Idle (startSignaled (pool s') ! w)"
    using wk md by (simp add: wok_def s' p')
  have e: "0 \<le> endSignaled (pool s')" "mgr s = M_Await \<longrightarrow> endSignaled (pool s') = 0"
    using sg md by (simp_all add: inv_signals_def s' p')
  have 1: "inv_signals s'"
    by (rule inv_signals_worker_step[OF sg w _ _ ok _ _ e]) (simp_all add: s' p')
  have pc: "\<And>inp v. present (pool s') inp v = present (pool s) inp v"
    by (simp add: s' p')
  have 2: "inv_count s'"
    unfolding inv_count_def
  proof (intro impI allI conjI)
    fix inp assume a: "mgr s' = M_Dispatched" "inputBuf s' = Some inp"
    hence ib: "inputBuf s = Some inp" by (simp add: s')
    have pw: "present (pool s) inp w" using ct md ib w wi by (simp add: inv_count_def)
    have loc: "completed s' inp - {w} = completed s inp - {w}"
      by (rule completed_local[OF _ w _ pc]) (simp_all add: s' p')
    have n: "w \<notin> completed s inp" using wi by (simp add: completed_def finished_def)
    have y: "w \<in> completed s' inp"
      using w s0 pw by (simp add: completed_def finished_def s' p')
    have "completed s' inp = insert w (completed s inp)" using loc n y by blast
    hence "card (completed s' inp) = Suc (card (completed s inp))"
      using n completed_finite[of s inp] by simp
    moreover have "endSignaled (pool s) \<le> int (card (completed s inp))"
      using ct md ib by (simp add: inv_count_def)
    ultimately show "endSignaled (pool s') \<le> int (card (completed s' inp))"
      by (simp add: s' p')
  next
    fix inp v assume a: "mgr s' = M_Dispatched" "inputBuf s' = Some inp"
      "v < length (workers s')" "workers s' ! v = W_Signal"
    hence ib: "inputBuf s = Some inp" and v: "v < length (workers s)" by (simp_all add: s')
    have "v \<noteq> w" using a(4) w by (auto simp: s')
    hence "workers s ! v = W_Signal" using a(4) by (simp add: s')
    hence "present (pool s) inp v" using ct md ib v by (simp add: inv_count_def)
    thus "present (pool s') inp v" by (simp add: pc)
  qed
  show ?thesis using 1 2 ..
qed

lemma inv_sync_manager_dispatch:
  assumes sta: "inv_static N bs ds ts s" and sg: "inv_signals s"
    and m: "mgr s = M_Await"
    and s': "s' = s \<lparr> pool := produce_dispatch (pool s), inputBuf := Some inp,
                       mgr := M_Dispatched \<rparr>"
  shows "inv_signals s' \<and> inv_count s'"
proof -
  from sta have ls: "length (startSignaled (pool s)) = length (workers s)"
    by (simp add: inv_static_def ctor_inv_def)
  have st1: "startSignaled (pool s') ! v = 1" if "v < length (workers s)" for v
    using that ls by (simp add: s' produce_dispatch_def)
  have e0: "endSignaled (pool s') = 0"
    using sg m by (simp add: inv_signals_def s' produce_dispatch_def)
  have wst: "workers s ! v = W_Init \<or> workers s ! v = W_Idle" if "v < length (workers s)" for v
    using inv_signalsD[OF sg that] m by (simp add: wok_def)
  have 1: "inv_signals s'"
    unfolding inv_signals_def
  proof (intro conjI allI impI)
    fix v assume "v < length (workers s')"
    hence v: "v < length (workers s)" by (simp add: s')
    show "wok (mgr s') (workers s' ! v) (startSignaled (pool s') ! v)"
      using st1[OF v] wst[OF v] by (auto simp: wok_def s')
  qed (simp_all add: e0, simp_all add: s')
  have 2: "inv_count s'"
    unfolding inv_count_def
  proof (intro impI allI conjI)
    fix i show "endSignaled (pool s') \<le> int (card (completed s' i))" by (simp add: e0)
  next
    fix i v assume "v < length (workers s')" "workers s' ! v = W_Signal"
    hence False using wst[of v] by (auto simp: s')
    thus "present (pool s') i v" ..
  qed
  show ?thesis using 1 2 ..
qed

lemma join_all_idle:
  assumes sta: "inv_static N bs ds ts s" and sg: "inv_signals s" and ct: "inv_count s"
    and m: "mgr s = M_Dispatched" and j: "\<not> (endSignaled (pool s) < count (pool s))"
  shows "\<exists>inp. inputBuf s = Some inp \<and> (\<forall>w < length (workers s). w \<in> completed s inp)"
proof -
  from sg m obtain inp where inp: "inputBuf s = Some inp" by (auto simp: inv_signals_def)
  have ec: "endSignaled (pool s) \<le> int (card (completed s inp))"
    using ct m inp by (simp add: inv_count_def)
  have "length (workers s) \<le> card (completed s inp)"
  proof (cases "length (workers s) = 0")
    case True thus ?thesis by simp
  next
    case False
    with sta have "int (length (workers s)) = count (pool s)" by (simp add: inv_static_def)
    thus ?thesis using j ec by linarith
  qed
  from completed_all[OF this] inp show ?thesis by blast
qed

lemma inv_sync_manager_finish:
  assumes sta: "inv_static N bs ds ts s" and sg: "inv_signals s" and ct: "inv_count s"
    and m: "mgr s = M_Dispatched" and j: "\<not> (endSignaled (pool s) < count (pool s))"
    and r: "produce_finish (pool s, outPool s, device s) = Inr (p', out', dev')"
    and s': "s' = s \<lparr> pool := p', outPool := out', device := dev', mgr := M_Await \<rparr>"
  shows "inv_signals s' \<and> inv_count s'"
proof -
  from r have p': "p' = (pool s) \<lparr> endSignaled := 0,
               bufferIndex := (if bufferIndex (pool s) = 0 then 1 else 0) \<rparr>"
    by (auto simp: produce_finish_eq)
  from join_all_idle[OF sta sg ct m j] obtain inp where
    allc: "\<And>w. w < length (workers s) \<Longrightarrow> w \<in> completed s inp" by blast
  have idle: "workers s ! v = W_Idle \<and> startSignaled (pool s) ! v = 0"
    if "v < length (workers s)" for v
    using allc[OF that] by (simp add: completed_def finished_def)
  have 1: "inv_signals s'"
    unfolding inv_signals_def
  proof (intro conjI allI impI)
    fix v assume "v < length (workers s')"
    hence v: "v < length (workers s)" by (simp add: s')
    show "wok (mgr s') (workers s' ! v) (startSignaled (pool s') ! v)"
      using idle[OF v] by (simp add: wok_def s' p')
  qed (simp_all add: s' p')
  have 2: "inv_count s'" by (simp add: inv_count_def s')
  show ?thesis using 1 2 ..
qed

lemma inv_sync_consumer_release:
  assumes sg: "inv_signals s" and ct: "inv_count s"
    and s': "s' = s \<lparr> outPool := x \<rparr>"
  shows "inv_signals s' \<and> inv_count s'"
proof -
  have ceq: "completed s' i = completed s i" for i
    by (simp add: completed_def finished_def s')
  have 1: "inv_signals s'" using sg by (simp add: inv_signals_def s')
  have 2: "inv_count s'" using ct ceq by (simp add: inv_count_def s')
  show ?thesis using 1 2 ..
qed

lemma inv_sync_step:
  assumes st: "step tr s s'" and sta: "inv_static N bs ds ts s"
    and sg: "inv_signals s" and ct: "inv_count s"
  shows "inv_signals s' \<and> inv_count s'"
  using st
proof (cases rule: step.cases)
  case (worker_init w p')
  show ?thesis by (rule inv_sync_worker_init[OF sta sg ct worker_init(2,3,4,1)])
next
  case (worker_begin w p')
  show ?thesis by (rule inv_sync_worker_begin[OF sta sg ct worker_begin(2,3,5,1)])
next
  case (worker_decode w inp ob)
  show ?thesis by (rule inv_sync_worker_decode[OF sta sg ct worker_decode(2,3,4,5,1)])
next
  case (worker_null w inp ob)
  show ?thesis by (rule inv_sync_worker_null[OF sta sg ct worker_null(2,3,1)])
next
  case (worker_end w p')
  show ?thesis by (rule inv_sync_worker_end[OF sta sg ct worker_end(2,3,4,1)])
next
  case (manager_dispatch inp)
  show ?thesis by (rule inv_sync_manager_dispatch[OF sta sg manager_dispatch(2,1)])
next
  case (manager_finish p' out' dev')
  show ?thesis by (rule inv_sync_manager_finish[OF sta sg ct manager_finish(2,3,4,1)])
next
  case consumer_release
  show ?thesis by (rule inv_sync_consumer_release[OF sg ct consumer_release(1)])
qed

lemma ctor_count_pos:
  assumes c: "DecodeThreadPool_ctor N bs ds ts = Inr p"
  shows "1 \<le> N"
proof (rule ccontr)
  assume n: "\<not> 1 \<le> N"
  from c have N0: "N \<noteq> 0" and a1: "bs \<le> ((bs - 1) sdiv N + 1) * N"
    and a2: "((bs - 1) sdiv N + 1) * (N - 1) < bs"
    by (auto simp: DecodeThreadPool_ctor_def c_div_def Let_def split: if_splits)
  from n N0 have Nn: "N < 0" by simp
  define M where "M = - N"
  have M: "0 < M" "N = - M" using Nn by (simp_all add: M_def)
  show False
  proof (cases "1 \<le> bs")
    case True
    hence "(bs - 1) sdiv N = - ((bs - 1) div M)"
      using M by (simp add: signed_divide_int_def sgn_if)
    moreover have "0 \<le> (bs - 1) div M" using True M by (simp add: pos_imp_zdiv_nonneg_iff)
    ultimately have le1: "(bs - 1) sdiv N + 1 \<le> 1" by simp
    have "((bs - 1) sdiv N + 1) * N - ((bs - 1) sdiv N + 1) < ((bs - 1) sdiv N + 1) * N"
      using a1 a2 by (simp add: algebra_simps)
    hence "0 < (bs - 1) sdiv N + 1" by simp
    with le1 have "(bs - 1) sdiv N + 1 = 1" by simp
    with a1 Nn True show False by simp
  next
    case False
    define q where "q = (1 - bs) div M"
    have "(bs - 1) sdiv N = q"
      using False M by (simp add: signed_divide_int_def sgn_if q_def)
    hence a1': "bs \<le> (q + 1) * N" using a1 by simp
    have "1 - bs < (q + 1) * M" using div_bounds[OF M(1), of "1 - bs"] by (simp add: q_def)
    hence "bs > 1 - (q + 1) * M" by simp
    with a1' M show False by (simp add: algebra_simps)
  qed
qed

lemma inv_sync_initial:
  assumes i: "initial N bs ds ts pin = Inr s0"
  shows "inv_signals s0 \<and> inv_count s0"
proof -
  from initial_eq[OF i] obtain p where p: "DecodeThreadPool_ctor N bs ds ts = Inr p"
    and s0: "s0 = \<lparr> pool = fst (DecodeThreadPool_start [] p),
                     outPool = BufferPool_ctor (c_mul bs ds) (c_mul bs ts) pin,
                     inputBuf = None, workers = replicate (nat N) W_Init,
                     mgr = M_Await, device = [] \<rparr>" by blast
  show ?thesis
    using ctor_fields(5,11)[OF p]
    by (simp add: s0 inv_signals_def inv_count_def wok_def)
qed

lemma inv_all_reachable:
  assumes i: "initial N bs ds ts pin = Inr s0" and r: "reachable tr s0 s"
  shows "inv_static N bs ds ts s \<and> inv_signals s \<and> inv_count s"
proof (rule reachable_induct[OF r])
  show "inv_static N bs ds ts s0 \<and> inv_signals s0 \<and> inv_count s0"
    using inv_static_initial[OF i] inv_sync_initial[OF i] by simp
next
  fix s s'
  assume a: "inv_static N bs ds ts s \<and> inv_signals s \<and> inv_count s" and st: "step tr s s'"
  show "inv_static N bs ds ts s' \<and> inv_signals s' \<and> inv_count s'"
    using inv_static_step[OF st] inv_sync_step[OF st] a by blast
qed

lemma signal_can_end:
  assumes sta: "inv_static N bs ds ts s" and sg: "inv_signals s" and ct: "inv_count s"
    and w: "w < length (workers s)" and ws: "workers s ! w = W_Signal"
  shows "endSignaled (pool s) + 1 \<le> count (pool s)"
proof -
  have wk: "wok (mgr s) W_Signal (startSignaled (pool s) ! w)"
    using inv_signalsD[OF sg w] ws by simp
  have md: "mgr s = M_Dispatched" using wok_not_await[OF wk] by simp
  with sg obtain inp where inp: "inputBuf s = Some inp" by (auto simp: inv_signals_def)
  have n: "w \<notin> completed s inp" using ws by (simp add: completed_def finished_def)
  have "completed s inp \<subseteq> {..< length (workers s)} - {w}"
    using completed_subset[of s inp] n by blast
  hence "card (completed s inp) \<le> card ({..< length (workers s)} - {w})"
    by (intro card_mono) auto
  also have "\<dots> = length (workers s) - 1" using w by simp
  finally have c: "card (completed s inp) \<le> length (workers s) - 1" .
  have "endSignaled (pool s) \<le> int (card (completed s inp))"
    using ct md inp by (simp add: inv_count_def)
  moreover have "int (length (workers s)) = count (pool s)"
    using sta w by (simp add: inv_static_def)
  ultimately show ?thesis using c w by linarith
qed

lemma endSignaled_le_count:
  assumes sta: "inv_static N bs ds ts s" and sg: "inv_signals s" and ct: "inv_count s"
    and N: "1 \<le> N"
  shows "endSignaled (pool s) \<le> count (pool s)"
proof (cases "mgr s")
  case M_Await
  thus ?thesis using sg sta N by (simp add: inv_signals_def inv_static_def)
next
  case M_Dispatched
  with sg obtain inp where inp: "inputBuf s = Some inp" by (auto simp: inv_signals_def)
  have "endSignaled (pool s) \<le> int (card (completed s inp))"
    using ct M_Dispatched inp by (simp add: inv_count_def)
  moreover have "int (length (workers s)) = count (pool s)"
    using sta N by (simp add: inv_static_def)
  ultimately show ?thesis using card_completed_le[of s inp] by linarith
qed

text \<open>
  C5. In every state of the pipeline after \<open>start\<close> and before the shutdown path,
  \<open>_endSignaled\<close> lies between 0 and the worker count \<open>N\<close>. It is 0 whenever the
  manager is about to dispatch a batch, and the dispatch leaves it 0. A worker that has
  completed its section finds \<open>_endSignaled + 1 \<le> _count\<close>, so its increment passes
  the assertion. The manager leaves its wait only with \<open>_endSignaled = N\<close> and resets
  the counter to 0.
\<close>

theorem C5_endSignaled_bounded:
  assumes i: "initial N bs ds ts pin = Inr s0" and r: "reachable tr s0 s"
  shows "count (pool s) = N
       \<and> 0 \<le> endSignaled (pool s) \<and> endSignaled (pool s) \<le> N
       \<and> (mgr s = M_Await \<longrightarrow>
             endSignaled (pool s) = 0 \<and> endSignaled (produce_dispatch (pool s)) = 0)
       \<and> (\<forall>w < length (workers s). workers s ! w = W_Signal \<longrightarrow>
             work_end (pool s) = Inr ((pool s) \<lparr> endSignaled := endSignaled (pool s) + 1 \<rparr>))
       \<and> (mgr s = M_Dispatched \<and> \<not> (endSignaled (pool s) < count (pool s)) \<longrightarrow>
             endSignaled (pool s) = N
           \<and> (\<forall>p' out' dev'. produce_finish (pool s, outPool s, device s) = Inr (p', out', dev')
                 \<longrightarrow> endSignaled p' = 0))"
proof -
  from initial_eq[OF i] obtain p where p: "DecodeThreadPool_ctor N bs ds ts = Inr p" by blast
  have N: "1 \<le> N" using ctor_count_pos[OF p] .
  from inv_all_reachable[OF i r]
  have sta: "inv_static N bs ds ts s" and sg: "inv_signals s" and ct: "inv_count s" by simp_all
  have c: "count (pool s) = N" using sta by (simp add: inv_static_def)
  have e0: "0 \<le> endSignaled (pool s)" using sg by (simp add: inv_signals_def)
  have le: "endSignaled (pool s) \<le> N" using endSignaled_le_count[OF sta sg ct N] c by simp
  have aw: "mgr s = M_Await \<longrightarrow>
             endSignaled (pool s) = 0 \<and> endSignaled (produce_dispatch (pool s)) = 0"
    using sg by (simp add: inv_signals_def produce_dispatch_def)
  have we: "\<forall>w < length (workers s). workers s ! w = W_Signal \<longrightarrow>
             work_end (pool s) = Inr ((pool s) \<lparr> endSignaled := endSignaled (pool s) + 1 \<rparr>)"
    using signal_can_end[OF sta sg ct] by (simp add: work_end_eq)
  have jn: "mgr s = M_Dispatched \<and> \<not> (endSignaled (pool s) < count (pool s)) \<longrightarrow>
             endSignaled (pool s) = N
           \<and> (\<forall>p' out' dev'. produce_finish (pool s, outPool s, device s) = Inr (p', out', dev')
                 \<longrightarrow> endSignaled p' = 0)"
    using le c by (auto simp: produce_finish_eq)
  show ?thesis using c e0 le aw we jn by blast
qed

lemma ex_joined_fields:
  "mgr ex_joined = M_Dispatched" "endSignaled (pool ex_joined) = 2" "count (pool ex_joined) = 2"
  by code_simp+

theorem C5_endSignaled_bounded_witness:
  "initial 2 4 2 1 False = Inr ex_initial
   \<and> reachable pad_transform ex_initial ex_joined
   \<and> mgr ex_joined = M_Dispatched
   \<and> \<not> (endSignaled (pool ex_joined) < count (pool ex_joined))
   \<and> count (pool ex_joined) = 2
   \<and> 0 \<le> endSignaled (pool ex_joined) \<and> endSignaled (pool ex_joined) \<le> 2
   \<and> endSignaled (pool ex_joined) = 2
   \<and> endSignaled (produce_dispatch (pool ex_initial)) = 0"
proof -
  note t = C5_endSignaled_bounded[OF ex_initial_eq ex_joined_reachable]
  note t0 = C5_endSignaled_bounded[OF ex_initial_eq reachable_refl[of pad_transform]]
  have a: "mgr ex_initial = M_Await" by code_simp
  have c: "count (pool ex_joined) = 2" using t by blast
  have b: "0 \<le> endSignaled (pool ex_joined)" "endSignaled (pool ex_joined) \<le> 2"
    using t by blast+
  have j: "\<not> (endSignaled (pool ex_joined) < count (pool ex_joined))"
    by (simp add: ex_joined_fields)
  have e: "endSignaled (pool ex_joined) = 2"
    using t j ex_joined_fields(1) by blast
  have d: "endSignaled (produce_dispatch (pool ex_initial)) = 0"
    using t0 a by blast
  show ?thesis
    by (intro conjI) (fact ex_initial_eq ex_joined_reachable ex_joined_fields(1) j c b e d)+
qed

lemma region_concat_count:
  fixes s sz :: int
  assumes sz: "0 \<le> sz"
  shows "0 \<le> s \<Longrightarrow> region xs (s * sz) (int n * sz)
           = concat (map (\<lambda>i. region xs (i * sz) sz) [s .. s + int n - 1])"
proof (induction n arbitrary: s)
  case 0
  thus ?case by (simp add: region_def)
next
  case (Suc n)
  have off: "0 \<le> s * sz" using Suc.prems sz by simp
  have b: "0 \<le> int n * sz" using sz by simp
  have "region xs (s * sz) (int (Suc n) * sz) = region xs (s * sz) (sz + int n * sz)"
    by (simp add: algebra_simps)
  also have "\<dots> = region xs (s * sz) sz @ region xs (s * sz + sz) (int n * sz)"
    by (rule region_add[OF off sz b])
  also have "s * sz + sz = (s + 1) * sz" by (simp add: algebra_simps)
  also have "region xs ((s + 1) * sz) (int n * sz)
      = concat (map (\<lambda>i. region xs (i * sz) sz) [s + 1 .. s + 1 + int n - 1])"
    using Suc.IH[of "s + 1"] Suc.prems by simp
  finally show ?case
    by (simp add: upto_rec1[of s "s + int n"] add.commute add.left_commute)
qed

lemma region_concat_items:
  fixes s e sz :: int
  assumes sz: "0 \<le> sz" and s0: "0 \<le> s" and se: "s \<le> e"
  shows "region xs (s * sz) ((e - s) * sz)
           = concat (map (\<lambda>i. region xs (i * sz) sz) [s .. e - 1])"
  using region_concat_count[OF sz s0, of xs "nat (e - s)"] se by simp

lemma target_item_region:
  assumes d: "targets_dense inp bs ts" and i: "0 \<le> i" "i < bs" and ts: "0 \<le> ts"
  shows "target_item (snd inp) i = region (data (snd inp)) (i * ts) ts"
  using d i by (simp add: targets_dense_def target_item_def item_bytes_def region_def)

lemma targets_region_concat:
  assumes d: "targets_dense inp bs ts" and ts: "0 \<le> ts"
    and s0: "0 \<le> s" and se: "s \<le> e" and eb: "e \<le> bs"
  shows "region (data (snd inp)) (s * ts) ((e - s) * ts)
           = concat (map (target_item (snd inp)) [s .. e - 1])"
proof -
  have m: "map (target_item (snd inp)) [s .. e - 1]
        = map (\<lambda>i. region (data (snd inp)) (i * ts) ts) [s .. e - 1]"
  proof (rule map_cong[OF refl])
    fix i assume "i \<in> set [s .. e - 1]"
    hence "0 \<le> i" "i < bs" using s0 eb by auto
    thus "target_item (snd inp) i = region (data (snd inp)) (i * ts) ts"
      using target_item_region[OF d _ _ ts] by blast
  qed
  show ?thesis
    unfolding m by (rule region_concat_items[OF ts s0 se])
qed

lemma work_decode_slices:
  assumes c: "work_decode tr w p inp ob = Completed ob'" and g: "geometry p w"
    and inv: "ctor_inv p" and w: "int w < count p"
    and ds: "0 \<le> datumSize p" and ts: "0 \<le> targetSize p"
    and tr: "exact_transform tr (datumSize p)"
    and d: "targets_dense inp (batchSize p) (targetSize p)"
  shows "slices_ok tr p inp ob' w"
proof -
  let ?s = "spec_startInd p w" and ?e = "spec_endInd p w"
  let ?wd = "work_data tr (fst inp) (datumSize p) ?s ?e (?s * datumSize p) (data (fst ob))"
  have rng: "?s < ?e" "0 \<le> ?s" "?e \<le> batchSize p" using spec_range_nonempty[OF inv w] .
  from c g obtain dd tt where dd: "?wd = Completed dd"
    and tt: "work_targets w p (snd inp) (data (snd ob)) = Inr tt"
    and ob': "data (fst ob') = dd" "data (snd ob') = tt"
    by (auto simp del: work_data.simps simp: work_decode_def geometry_def
        split: if_splits loop_result.splits sum.splits)
  have 1: "region (data (fst ob')) (?s * datumSize p) ((?e - ?s) * datumSize p)
           = concat (map (decoded_item tr (fst inp) (datumSize p)) [?s .. ?e - 1])"
    using work_data_content[OF tr ds dd] ob' by simp
  have gi: "getItem (snd inp) ?s = Some (nat (?s * targetSize p), nat (targetSize p))"
    using d rng by (simp add: targets_dense_def)
  have off: "0 \<le> ?s * targetSize p" using rng ts by simp
  from tt g gi ts off
  have mc: "memcpy (data (snd ob)) (?s * targetSize p) (data (snd inp)) (?s * targetSize p)
               ((?e - ?s) * targetSize p) = Inr tt"
    by (simp add: work_targets_def geometry_def split: if_splits)
  have "region tt (?s * targetSize p) ((?e - ?s) * targetSize p)
        = region (data (snd inp)) (?s * targetSize p) ((?e - ?s) * targetSize p)"
    using memcpy_slice[OF mc] .
  also have "\<dots> = concat (map (target_item (snd inp)) [?s .. ?e - 1])"
    using targets_region_concat[OF d ts rng(2) _ rng(3)] rng(1) by simp
  finally have 2: "region (data (snd ob')) (?s * targetSize p) ((?e - ?s) * targetSize p)
           = concat (map (target_item (snd inp)) [?s .. ?e - 1])"
    using ob' by simp
  show ?thesis using 1 2 by (simp add: slices_ok_def)
qed

lemma spec_ranges_ordered:
  assumes inv: "ctor_inv p" and v: "int v < count p" and w: "int w < count p" and ne: "v \<noteq> w"
    and sz: "0 \<le> sz"
  shows "spec_endInd p v * sz \<le> spec_startInd p w * sz \<or> spec_endInd p w * sz \<le> spec_startInd p v * sz"
proof -
  have i: "1 \<le> itemsPerThread p" using ctor_inv_pos[OF inv v] by simp
  have key: "spec_endInd p a * sz \<le> spec_startInd p b * sz" if "a < b" for a b :: nat
  proof -
    from that have "int a + 1 \<le> int b" by simp
    hence "(int a + 1) * itemsPerThread p \<le> int b * itemsPerThread p"
      using i by (intro mult_right_mono) auto
    hence "spec_endInd p a \<le> spec_startInd p b"
      by (simp add: spec_endInd_def spec_startInd_def)
    thus ?thesis using sz by (rule mult_right_mono)
  qed
  from ne consider "v < w" | "w < v" by linarith
  thus ?thesis using key by cases blast+
qed

lemma slices_ok_frame:
  assumes ok: "slices_ok tr p inp ob v"
    and inv: "ctor_inv p" and v: "int v < count p" and w: "int w < count p" and ne: "v \<noteq> w"
    and ds: "0 \<le> datumSize p" and ts: "0 \<le> targetSize p"
    and fd: "unchanged_outside (spec_startInd p w * datumSize p) (spec_endInd p w * datumSize p)
               (data (fst ob)) (data (fst ob'))"
    and ft: "unchanged_outside (spec_startInd p w * targetSize p) (spec_endInd p w * targetSize p)
               (data (snd ob)) (data (snd ob'))"
  shows "slices_ok tr p inp ob' v"
proof -
  let ?s = "spec_startInd p v" and ?e = "spec_endInd p v"
  have s0: "0 \<le> ?s" using spec_range_nonempty(2)[OF inv v] .
  have offd: "0 \<le> ?s * datumSize p" and offt: "0 \<le> ?s * targetSize p"
    using s0 ds ts by simp_all
  have ed: "?s * datumSize p + (?e - ?s) * datumSize p = ?e * datumSize p"
    and et: "?s * targetSize p + (?e - ?s) * targetSize p = ?e * targetSize p"
    by (simp_all add: algebra_simps)
  have dd: "?s * datumSize p + (?e - ?s) * datumSize p \<le> spec_startInd p w * datumSize p
          \<or> spec_endInd p w * datumSize p \<le> ?s * datumSize p"
    unfolding ed using spec_ranges_ordered[OF inv v w ne ds] .
  have dt: "?s * targetSize p + (?e - ?s) * targetSize p \<le> spec_startInd p w * targetSize p
          \<or> spec_endInd p w * targetSize p \<le> ?s * targetSize p"
    unfolding et using spec_ranges_ordered[OF inv v w ne ts] .
  have 1: "region (data (fst ob')) (?s * datumSize p) ((?e - ?s) * datumSize p)
         = region (data (fst ob)) (?s * datumSize p) ((?e - ?s) * datumSize p)"
    by (rule region_unchanged[OF fd offd dd])
  have 2: "region (data (snd ob')) (?s * targetSize p) ((?e - ?s) * targetSize p)
         = region (data (snd ob)) (?s * targetSize p) ((?e - ?s) * targetSize p)"
    by (rule region_unchanged[OF ft offt dt])
  show ?thesis using ok by (simp add: slices_ok_def 1 2)
qed

lemma work_data_null_missing:
  "work_data tr inD dsz i e off out = NullItem out'
   \<Longrightarrow> \<exists>j. i \<le> j \<and> j < e \<and> getItem inD j = None"
proof (induction tr inD dsz i e off out rule: work_data.induct)
  case (1 tr inData dsz i endI dataBuf out)
  show ?case
  proof (cases "i < endI")
    case False
    with "1.prems" show ?thesis by simp
  next
    case True
    show ?thesis
    proof (cases "getItem inData i")
      case None
      with True show ?thesis by (intro exI[of _ i]) simp
    next
      case (Some item)
      show ?thesis
      proof (cases "store out dataBuf (tr (item_bytes inData item) dsz)")
        case (Inl f)
        with True Some "1.prems" show ?thesis by simp
      next
        case (Inr o1)
        from True Some Inr "1.prems"
        have rec: "work_data tr inData dsz (i + 1) endI (dataBuf + dsz) o1 = NullItem out'"
          by simp
        from "1.IH"[OF True Some Inr rec] obtain j where
          "i + 1 \<le> j" "j < endI" "getItem inData j = None" by blast
        thus ?thesis by (intro exI[of _ j]) simp
      qed
    qed
  qed
qed

lemma work_decode_null_not_present:
  assumes c: "work_decode tr w p inp ob = NullItem ob'" and g: "run_done p w"
  shows "\<not> present p inp w"
proof -
  let ?wd = "work_data tr (fst inp) (datumSize p) (spec_startInd p w) (spec_endInd p w)
                (c_mul (spec_startInd p w) (datumSize p)) (data (fst ob))"
  from c g obtain d where "?wd = NullItem d"
    by (auto simp del: work_data.simps simp: work_decode_def run_done_def
        split: if_splits loop_result.splits sum.splits)
  from work_data_null_missing[OF this] show ?thesis by (auto simp: present_def)
qed

lemma slices_ok_upd [simp]:
  "slices_ok tr (p \<lparr> startSignaled := x \<rparr>) inp ob w = slices_ok tr p inp ob w"
  "slices_ok tr (p \<lparr> endSignaled := e \<rparr>) inp ob w = slices_ok tr p inp ob w"
  by (simp_all add: slices_ok_def spec_startInd_def spec_endInd_def)

lemma slices_ok_cong:
  "itemsPerThread p' = itemsPerThread p \<Longrightarrow> batchSize p' = batchSize p
   \<Longrightarrow> datumSize p' = datumSize p \<Longrightarrow> targetSize p' = targetSize p
   \<Longrightarrow> slices_ok tr p' inp ob w = slices_ok tr p inp ob w"
  by (simp add: slices_ok_def spec_startInd_def spec_endInd_def)

lemma inv_contentD:
  assumes "inv_content tr s" "mgr s = M_Dispatched" "inputBuf s = Some inp"
    "targets_dense inp (batchSize (pool s)) (targetSize (pool s))"
    "v < length (workers s)" "workers s ! v = W_Signal \<or> v \<in> completed s inp"
  shows "slices_ok tr (pool s) inp (getForWrite (outPool s)) v"
  using assms unfolding inv_content_def by blast

lemma inv_content_same_buffer:
  assumes ic: "inv_content tr s" and m: "mgr s' = mgr s" and ib: "inputBuf s' = inputBuf s"
    and len: "length (workers s') = length (workers s)"
    and gw: "getForWrite (outPool s') = getForWrite (outPool s)"
    and cg: "\<And>inp v. slices_ok tr (pool s') inp (getForWrite (outPool s)) v
                = slices_ok tr (pool s) inp (getForWrite (outPool s)) v"
    and bt: "batchSize (pool s') = batchSize (pool s)" "targetSize (pool s') = targetSize (pool s)"
    and bk: "\<And>inp v. mgr s = M_Dispatched \<Longrightarrow> inputBuf s = Some inp
                \<Longrightarrow> v < length (workers s)
                \<Longrightarrow> workers s' ! v = W_Signal \<or> v \<in> completed s' inp
                \<Longrightarrow> workers s ! v = W_Signal \<or> v \<in> completed s inp"
  shows "inv_content tr s'"
  unfolding inv_content_def
proof (intro impI allI)
  fix inp v
  assume md: "mgr s' = M_Dispatched"
    and a: "inputBuf s' = Some inp \<and> targets_dense inp (batchSize (pool s')) (targetSize (pool s'))"
    and v: "v < length (workers s')"
    and c: "workers s' ! v = W_Signal \<or> v \<in> completed s' inp"
  have md': "mgr s = M_Dispatched" and ib': "inputBuf s = Some inp"
    and d: "targets_dense inp (batchSize (pool s)) (targetSize (pool s))"
    and v': "v < length (workers s)"
    using md a v by (simp_all add: m ib bt len)
  have "slices_ok tr (pool s) inp (getForWrite (outPool s)) v"
    by (rule inv_contentD[OF ic md' ib' d v' bk[OF md' ib' v' c]])
  thus "slices_ok tr (pool s') inp (getForWrite (outPool s')) v"
    by (simp add: gw cg)
qed

lemma completed_back:
  assumes loc: "completed s' inp - {w} = completed s inp - {w}"
    and W': "workers s' = (workers s)[w := x]"
    and v: "v < length (workers s)" and ne: "v \<noteq> w"
    and c: "workers s' ! v = W_Signal \<or> v \<in> completed s' inp"
  shows "workers s ! v = W_Signal \<or> v \<in> completed s inp"
proof -
  have "workers s' ! v = workers s ! v" using ne by (simp add: W')
  moreover have "v \<in> completed s' inp \<longleftrightarrow> v \<in> completed s inp" using loc ne by blast
  ultimately show ?thesis using c by simp
qed

lemma inv_content_worker_init:
  assumes sg: "inv_signals s" and ic: "inv_content tr s"
    and w: "w < length (workers s)" and wi: "workers s ! w = W_Init"
    and r: "run_init w (pool s) = Inr p'"
    and s': "s' = s \<lparr> pool := p', workers := (workers s)[w := W_Idle] \<rparr>"
  shows "inv_content tr s'"
proof (rule inv_content_same_buffer[OF ic])
  note f = run_init_fields(5,2,3,4,7)[OF r]
  show "\<And>inp v. slices_ok tr (pool s') inp (getForWrite (outPool s)) v
                = slices_ok tr (pool s) inp (getForWrite (outPool s)) v"
    by (rule slices_ok_cong) (simp_all add: s' f)
  fix inp v
  assume md: "mgr s = M_Dispatched" and v: "v < length (workers s)"
    and c: "workers s' ! v = W_Signal \<or> v \<in> completed s' inp"
  have pc: "\<And>u. present (pool s') inp u = present (pool s) inp u"
    by (rule present_cong) (simp_all add: s' f)
  have loc: "completed s' inp - {w} = completed s inp - {w}"
    by (rule completed_local[OF _ w _ pc]) (simp_all add: s' f)
  have s1: "startSignaled (pool s) ! w = 1"
    using inv_signalsD[OF sg w] wi md by (simp add: wok_def)
  have "w \<notin> completed s' inp" using s1 by (simp add: completed_def finished_def s' f)
  moreover have "workers s' ! w \<noteq> W_Signal" using w by (simp add: s')
  ultimately have ne: "v \<noteq> w" using c by auto
  show "workers s ! v = W_Signal \<or> v \<in> completed s inp"
    by (rule completed_back[OF loc _ v ne c]) (simp add: s')
qed (simp_all add: s' run_init_fields(2,4)[OF r])

lemma inv_content_worker_begin:
  assumes ic: "inv_content tr s"
    and w: "w < length (workers s)" and wi: "workers s ! w = W_Idle"
    and r: "work_begin w (pool s) = Inr p'"
    and s': "s' = s \<lparr> pool := p', workers := (workers s)[w := W_Busy] \<rparr>"
  shows "inv_content tr s'"
proof (rule inv_content_same_buffer[OF ic])
  from r have p': "p' = (pool s) \<lparr> startSignaled := (startSignaled (pool s))[w := 0] \<rparr>"
    by (simp add: work_begin_eq)
  show "\<And>inp v. slices_ok tr (pool s') inp (getForWrite (outPool s)) v
                = slices_ok tr (pool s) inp (getForWrite (outPool s)) v"
    by (simp add: s' p')
  show "batchSize (pool s') = batchSize (pool s)" "targetSize (pool s') = targetSize (pool s)"
    by (simp_all add: s' p')
  fix inp v
  assume v: "v < length (workers s)"
    and c: "workers s' ! v = W_Signal \<or> v \<in> completed s' inp"
  have pc: "\<And>u. present (pool s') inp u = present (pool s) inp u" by (simp add: s' p')
  have loc: "completed s' inp - {w} = completed s inp - {w}"
    by (rule completed_local[OF _ w _ pc]) (simp_all add: s' p')
  have "w \<notin> completed s' inp" using w by (simp add: completed_def finished_def s')
  moreover have "workers s' ! w \<noteq> W_Signal" using w by (simp add: s')
  ultimately have ne: "v \<noteq> w" using c by auto
  show "workers s ! v = W_Signal \<or> v \<in> completed s inp"
    by (rule completed_back[OF loc _ v ne c]) (simp add: s')
qed (simp_all add: s')

lemma inv_content_worker_end:
  assumes ic: "inv_content tr s"
    and w: "w < length (workers s)" and wi: "workers s ! w = W_Signal"
    and r: "work_end (pool s) = Inr p'"
    and s': "s' = s \<lparr> pool := p', workers := (workers s)[w := W_Idle] \<rparr>"
  shows "inv_content tr s'"
proof (rule inv_content_same_buffer[OF ic])
  from r have p': "p' = (pool s) \<lparr> endSignaled := endSignaled (pool s) + 1 \<rparr>"
    by (simp add: work_end_eq)
  show "\<And>inp v. slices_ok tr (pool s') inp (getForWrite (outPool s)) v
                = slices_ok tr (pool s) inp (getForWrite (outPool s)) v"
    by (simp add: s' p')
  show "batchSize (pool s') = batchSize (pool s)" "targetSize (pool s') = targetSize (pool s)"
    by (simp_all add: s' p')
  fix inp v
  assume v: "v < length (workers s)"
    and c: "workers s' ! v = W_Signal \<or> v \<in> completed s' inp"
  have pc: "\<And>u. present (pool s') inp u = present (pool s) inp u" by (simp add: s' p')
  have loc: "completed s' inp - {w} = completed s inp - {w}"
    by (rule completed_local[OF _ w _ pc]) (simp_all add: s' p')
  show "workers s ! v = W_Signal \<or> v \<in> completed s inp"
  proof (cases "v = w")
    case True thus ?thesis using wi by simp
  next
    case False
    show ?thesis by (rule completed_back[OF loc _ v False c]) (simp add: s')
  qed
qed (simp_all add: s')

lemma inv_content_consumer_release:
  assumes ic: "inv_content tr s"
    and s': "s' = s \<lparr> outPool := signalNonFull (advanceReadPos (outPool s)) \<rparr>"
  shows "inv_content tr s'"
proof (rule inv_content_same_buffer[OF ic])
  fix inp v
  assume c: "workers s' ! v = W_Signal \<or> v \<in> completed s' inp"
  have "completed s' inp = completed s inp" by (simp add: completed_def finished_def s')
  thus "workers s ! v = W_Signal \<or> v \<in> completed s inp" using c by (simp add: s')
qed (simp_all add: s')

lemma inv_content_worker_decode:
  assumes sta: "inv_static N bs ds ts s" and sg: "inv_signals s" and ic: "inv_content tr s"
    and ds: "0 \<le> ds" and ts: "0 \<le> ts"
    and bd: "bs * ds < 2147483648" and bt: "bs * ts < 2147483648"
    and tr: "exact_transform tr ds"
    and w: "w < length (workers s)" and wi: "workers s ! w = W_Busy"
    and ib: "inputBuf s = Some inp"
    and r: "work_decode tr w (pool s) inp (getForWrite (outPool s)) = Completed ob
          \<or> work_decode tr w (pool s) inp (getForWrite (outPool s)) = NullItem ob"
    and s': "s' = s \<lparr> outPool := putForWrite (outPool s) ob,
                       workers := (workers s)[w := x] \<rparr>"
    and x: "x = W_Signal \<longrightarrow> work_decode tr w (pool s) inp (getForWrite (outPool s)) = Completed ob"
    and x': "x \<noteq> W_Signal \<longrightarrow>
              x = W_Idle \<and> work_decode tr w (pool s) inp (getForWrite (outPool s)) = NullItem ob"
  shows "inv_content tr s'"
  unfolding inv_content_def
proof (intro impI allI)
  fix i v
  assume md': "mgr s' = M_Dispatched"
    and a: "inputBuf s' = Some i \<and> targets_dense i (batchSize (pool s')) (targetSize (pool s'))"
    and v': "v < length (workers s')"
    and c: "workers s' ! v = W_Signal \<or> v \<in> completed s' i"
  have md: "mgr s = M_Dispatched" and ii: "i = inp"
    and d: "targets_dense inp (batchSize (pool s)) (targetSize (pool s))"
    and v: "v < length (workers s)"
    using md' a v' ib by (auto simp: s')
  from sta have inv: "ctor_inv (pool s)" and cnt: "count (pool s) = N"
    and lw: "length (workers s) = nat N"
    and dsz: "datumSize (pool s) = ds" and tsz: "targetSize (pool s) = ts"
    and wp: "writePos (outPool s) < length (bufs (outPool s))"
    by (simp_all add: inv_static_def)
  have rd: "run_done (pool s) w" using sta w wi by (simp add: inv_static_def)
  have wc: "int w < count (pool s)" and vc: "int v < count (pool s)"
    using w v lw cnt by linarith+
  have "int_sized (pool s)"
    using sta ds ts bd bt by (simp add: inv_static_def int_sized_def)
  hence g: "geometry (pool s) w" by (rule run_done_geometry[OF rd inv wc])
  have gw: "getForWrite (outPool s') = ob" using wp by (simp add: s')
  have ds': "0 \<le> datumSize (pool s)" and ts': "0 \<le> targetSize (pool s)"
    and tr': "exact_transform tr (datumSize (pool s))"
    using ds ts tr dsz tsz by simp_all
  have "slices_ok tr (pool s) inp ob v"
  proof (cases "v = w")
    case True
    show ?thesis
    proof (cases "x = W_Signal")
      case True
      with x have "work_decode tr w (pool s) inp (getForWrite (outPool s)) = Completed ob"
        by simp
      from work_decode_slices[OF this g inv wc ds' ts' tr' d] \<open>v = w\<close> show ?thesis by simp
    next
      case False
      with x' have xi: "x = W_Idle"
        and nl: "work_decode tr w (pool s) inp (getForWrite (outPool s)) = NullItem ob" by simp_all
      have np: "\<not> present (pool s) inp w" using work_decode_null_not_present[OF nl rd] .
      have "workers s' ! w \<noteq> W_Signal" using w xi by (simp add: s')
      moreover have "w \<notin> completed s' inp" using np by (simp add: completed_def s')
      ultimately show ?thesis using c \<open>v = w\<close> ii by simp
    qed
  next
    case False
    have pc: "\<And>u. present (pool s') inp u = present (pool s) inp u" by (simp add: s')
    have loc: "completed s' inp - {w} = completed s inp - {w}"
      by (rule completed_local[OF _ w _ pc]) (simp_all add: s')
    have old: "workers s ! v = W_Signal \<or> v \<in> completed s inp"
      by (rule completed_back[OF loc _ v False]) (use c ii in \<open>simp_all add: s'\<close>)
    have so: "slices_ok tr (pool s) inp (getForWrite (outPool s)) v"
      by (rule inv_contentD[OF ic md ib d v old])
    note fr = work_decode_frame[OF g ds' tr' r]
    show ?thesis by (rule slices_ok_frame[OF so inv vc wc False ds' ts' fr])
  qed
  thus "slices_ok tr (pool s') i (getForWrite (outPool s')) v"
    unfolding gw ii by (simp add: s')
qed

lemma inv_content_manager_dispatch:
  assumes sta: "inv_static N bs ds ts s" and sg: "inv_signals s"
    and m: "mgr s = M_Await"
    and s': "s' = s \<lparr> pool := produce_dispatch (pool s), inputBuf := Some inp,
                       mgr := M_Dispatched \<rparr>"
  shows "inv_content tr s'"
  unfolding inv_content_def
proof (intro impI allI)
  fix i v
  assume v': "v < length (workers s')"
    and c: "workers s' ! v = W_Signal \<or> v \<in> completed s' i"
  have v: "v < length (workers s)" using v' by (simp add: s')
  from sta have ls: "length (startSignaled (pool s)) = length (workers s)"
    by (simp add: inv_static_def ctor_inv_def)
  have "workers s ! v = W_Init \<or> workers s ! v = W_Idle"
    using inv_signalsD[OF sg v] m by (simp add: wok_def)
  hence n1: "workers s' ! v \<noteq> W_Signal" by (auto simp: s')
  have "startSignaled (pool s') ! v = 1" using v ls by (simp add: s' produce_dispatch_def)
  hence n2: "v \<notin> completed s' i" by (simp add: completed_def finished_def)
  from c n1 n2 have False by simp
  thus "slices_ok tr (pool s') i (getForWrite (outPool s')) v" ..
qed

lemma inv_content_step:
  assumes st: "step tr s s'" and sta: "inv_static N bs ds ts s"
    and sg: "inv_signals s" and ic: "inv_content tr s"
    and ds: "0 \<le> ds" and ts: "0 \<le> ts"
    and bd: "bs * ds < 2147483648" and bt: "bs * ts < 2147483648"
    and tr: "exact_transform tr ds"
  shows "inv_content tr s'"
  using st
proof (cases rule: step.cases)
  case (worker_init w p')
  show ?thesis by (rule inv_content_worker_init[OF sg ic worker_init(2,3,4,1)])
next
  case (worker_begin w p')
  show ?thesis by (rule inv_content_worker_begin[OF ic worker_begin(2,3,5,1)])
next
  case (worker_decode w inp ob)
  show ?thesis
    by (rule inv_content_worker_decode[OF sta sg ic ds ts bd bt tr worker_decode(2,3,4)
          disjI1[OF worker_decode(5)] worker_decode(1)])
       (simp_all add: worker_decode(5))
next
  case (worker_null w inp ob)
  show ?thesis
    by (rule inv_content_worker_decode[OF sta sg ic ds ts bd bt tr worker_null(2,3,4)
          disjI2[OF worker_null(5)] worker_null(1)])
       (simp_all add: worker_null(5))
next
  case (worker_end w p')
  show ?thesis by (rule inv_content_worker_end[OF ic worker_end(2,3,4,1)])
next
  case (manager_dispatch inp)
  show ?thesis by (rule inv_content_manager_dispatch[OF sta sg manager_dispatch(2,1)])
next
  case (manager_finish p' out' dev')
  show ?thesis by (simp add: inv_content_def manager_finish(1))
next
  case consumer_release
  show ?thesis by (rule inv_content_consumer_release[OF ic consumer_release(1)])
qed

lemma inv_content_initial:
  assumes i: "initial N bs ds ts pin = Inr s0"
  shows "inv_content tr s0"
  using initial_eq[OF i] by (auto simp: inv_content_def)

lemma inv_content_reachable:
  assumes i: "initial N bs ds ts pin = Inr s0" and r: "reachable tr s0 s"
    and ds: "0 \<le> ds" and ts: "0 \<le> ts"
    and bd: "bs * ds < 2147483648" and bt: "bs * ts < 2147483648"
    and tr: "exact_transform tr ds"
  shows "inv_content tr s"
proof -
  have "inv_static N bs ds ts s \<and> inv_signals s \<and> inv_count s \<and> inv_content tr s"
  proof (rule reachable_induct[OF r])
    show "inv_static N bs ds ts s0 \<and> inv_signals s0 \<and> inv_count s0 \<and> inv_content tr s0"
      using inv_static_initial[OF i] inv_sync_initial[OF i] inv_content_initial[OF i] by simp
  next
    fix s s'
    assume a: "inv_static N bs ds ts s \<and> inv_signals s \<and> inv_count s \<and> inv_content tr s"
      and st: "step tr s s'"
    show "inv_static N bs ds ts s' \<and> inv_signals s' \<and> inv_count s' \<and> inv_content tr s'"
      using inv_static_step[OF st] inv_sync_step[OF st] inv_content_step[OF st _ _ _ ds ts bd bt tr] a
      by blast
  qed
  thus ?thesis by simp
qed

lemma assemble_prefix:
  assumes inv: "ctor_inv p" and sz: "0 \<le> sz"
    and sl: "\<And>w. int w < count p \<Longrightarrow>
          region xs (spec_startInd p w * sz) ((spec_endInd p w - spec_startInd p w) * sz)
          = concat (map g [spec_startInd p w .. spec_endInd p w - 1])"
  shows "int k \<le> count p \<Longrightarrow> 1 \<le> count p
     \<Longrightarrow> region xs 0 (min (int k * itemsPerThread p) (batchSize p) * sz)
         = concat (map g [0 .. min (int k * itemsPerThread p) (batchSize p) - 1])"
proof (induction k)
  case 0
  have "1 \<le> batchSize p" using ctor_inv_pos(3)[OF inv, of 0] 0 by simp
  hence "min (int 0 * itemsPerThread p) (batchSize p) = 0" by simp
  thus ?case by (simp add: region_def)
next
  case (Suc k)
  hence kc: "int k < count p" and kle: "int k \<le> count p" by simp_all
  let ?s = "spec_startInd p k" and ?e = "spec_endInd p k"
  have rng: "?s < ?e" "0 \<le> ?s" "?e \<le> batchSize p" using spec_range_nonempty[OF inv kc] .
  have Ek: "min (int k * itemsPerThread p) (batchSize p) = ?s"
    using rng by (simp add: spec_startInd_def spec_endInd_def)
  have Ek1: "min (int (Suc k) * itemsPerThread p) (batchSize p) = ?e"
    by (simp add: spec_endInd_def add.commute)
  have ih: "region xs 0 (?s * sz) = concat (map g [0 .. ?s - 1])"
    using Suc.IH[OF kle Suc.prems(2)] unfolding Ek .
  have a: "0 \<le> ?s * sz" using rng sz by simp
  have b: "0 \<le> (?e - ?s) * sz" using rng sz by simp
  have "?e * sz = ?s * sz + (?e - ?s) * sz" by (simp add: algebra_simps)
  hence "region xs 0 (?e * sz) = region xs 0 (?s * sz) @ region xs (0 + ?s * sz) ((?e - ?s) * sz)"
    using region_add[OF _ a b, of 0 xs] by simp
  also have "\<dots> = concat (map g [0 .. ?s - 1]) @ concat (map g [?s .. ?e - 1])"
    using ih sl[OF kc] by simp
  also have "\<dots> = concat (map g [0 .. ?e - 1])"
    using upto_split1[of 0 ?s "?e - 1"] rng by simp
  finally show ?case unfolding Ek1 .
qed

lemma assemble_whole:
  assumes inv: "ctor_inv p" and sz: "0 \<le> sz" and c1: "1 \<le> count p"
    and len: "length xs = nat (batchSize p * sz)"
    and sl: "\<And>w. int w < count p \<Longrightarrow>
          region xs (spec_startInd p w * sz) ((spec_endInd p w - spec_startInd p w) * sz)
          = concat (map g [spec_startInd p w .. spec_endInd p w - 1])"
  shows "xs = concat (map g [0 .. batchSize p - 1])"
proof -
  from inv have a1: "batchSize p \<le> itemsPerThread p * count p" by (simp add: ctor_inv_def)
  have k: "int (nat (count p)) = count p" using c1 by simp
  have m: "min (count p * itemsPerThread p) (batchSize p) = batchSize p"
    using a1 by (simp add: mult.commute)
  have "region xs 0 (batchSize p * sz) = concat (map g [0 .. batchSize p - 1])"
    using assemble_prefix[OF inv sz sl, of "nat (count p)"] c1 by (simp add: k m)
  moreover have "region xs 0 (batchSize p * sz) = xs" using len by (simp add: region_def)
  ultimately show ?thesis by simp
qed

lemma all_items_present:
  assumes inv: "ctor_inv p" and pr: "\<And>w. int w < count p \<Longrightarrow> present p inp w"
    and i: "0 \<le> i" "i < batchSize p"
  shows "getItem (fst inp) i \<noteq> None"
proof -
  have "i \<in> {0 ..< batchSize p * 1}" using i by simp
  hence "i \<in> (\<Union>w \<in> {w. int w < count p}. spec_interval p 1 w)"
    using spec_interval_cover[OF inv, of 1] by simp
  then obtain w where w: "int w < count p" and "spec_startInd p w \<le> i" "i < spec_endInd p w"
    by (auto simp: spec_interval_def)
  thus ?thesis using pr[OF w] by (simp add: present_def)
qed

lemma Matrix_transpose_ok:
  assumes "0 \<le> rows" "0 \<le> cols" "int (length d) = rows * cols"
  shows "\<exists>d'. Matrix_transpose d rows cols = Inr d'"
  using assms by (simp add: Matrix_transpose_def)

lemma joined_buffer:
  assumes i: "initial N bs ds ts pin = Inr s0" and r: "reachable tr s0 s"
    and ds: "0 \<le> ds" and ts: "0 \<le> ts"
    and bd: "bs * ds < 2147483648" and bt: "bs * ts < 2147483648"
    and tr: "exact_transform tr ds"
    and m: "mgr s = M_Dispatched" and j: "\<not> (endSignaled (pool s) < count (pool s))"
    and ib: "inputBuf s = Some inp" and dense: "targets_dense inp bs ts"
  shows "data (fst (getForWrite (outPool s)))
           = concat (map (decoded_item tr (fst inp) ds) [0 .. bs - 1])"
    and "data (snd (getForWrite (outPool s)))
           = concat (map (target_item (snd inp)) [0 .. bs - 1])"
    and "\<forall>k. 0 \<le> k \<and> k < bs \<longrightarrow> getItem (fst inp) k \<noteq> None"
    and "int (length (data (fst (getForWrite (outPool s))))) = bs * ds"
    and "1 \<le> bs"
proof -
  from initial_eq[OF i] obtain p0 where p0: "DecodeThreadPool_ctor N bs ds ts = Inr p0" by blast
  have N: "1 \<le> N" using ctor_count_pos[OF p0] .
  from inv_all_reachable[OF i r]
  have sta: "inv_static N bs ds ts s" and sg: "inv_signals s" and ct: "inv_count s" by simp_all
  have ic: "inv_content tr s" using inv_content_reachable[OF i r ds ts bd bt tr] .
  let ?p = "pool s" and ?ob = "getForWrite (outPool s)"
  from sta have inv: "ctor_inv ?p" and cnt: "count ?p = N" and bsz: "batchSize ?p = bs"
    and dsz: "datumSize ?p = ds" and tsz: "targetSize ?p = ts"
    and lw: "length (workers s) = nat N" and wp: "writePos (outPool s) < 2"
    and sizes0: "\<forall>k < 2. length (data (fst (bufs (outPool s) ! k))) = nat (c_mul bs ds)
              \<and> length (data (snd (bufs (outPool s) ! k))) = nat (c_mul bs ts)"
    by (simp_all add: inv_static_def)
  have c1: "1 \<le> count ?p" using N cnt by simp
  show b1: "1 \<le> bs" using ctor_inv_pos(3)[OF inv, of 0] c1 bsz by simp
  have "0 \<le> bs * ds" "0 \<le> bs * ts" using b1 ds ts by simp_all
  hence cm: "c_mul bs ds = bs * ds" "c_mul bs ts = bs * ts"
    using bd bt by (simp_all add: c_mul_exact)
  have sizes: "\<forall>k < 2. length (data (fst (bufs (outPool s) ! k))) = nat (bs * ds)
              \<and> length (data (snd (bufs (outPool s) ! k))) = nat (bs * ts)"
    using sizes0 by (simp only: cm)
  have lend: "length (data (fst ?ob)) = nat (batchSize ?p * datumSize ?p)"
    and lent: "length (data (snd ?ob)) = nat (batchSize ?p * targetSize ?p)"
    using sizes wp by (simp_all add: getForWrite_def bsz dsz tsz)
  show "int (length (data (fst ?ob))) = bs * ds" using lend b1 ds by (simp add: bsz dsz)
  from join_all_idle[OF sta sg ct m j] ib
  have allc: "\<And>w. w < length (workers s) \<Longrightarrow> w \<in> completed s inp" by auto
  have wl: "w < length (workers s)" if "int w < count ?p" for w
    using that lw cnt by linarith
  have d: "targets_dense inp (batchSize ?p) (targetSize ?p)" using dense bsz tsz by simp
  have ok: "slices_ok tr ?p inp ?ob w" if "int w < count ?p" for w
    using inv_contentD[OF ic m ib d wl[OF that]] allc[OF wl[OF that]] by blast
  have pr: "present ?p inp w" if "int w < count ?p" for w
    using allc[OF wl[OF that]] by (simp add: completed_def)
  have "data (fst ?ob) = concat (map (decoded_item tr (fst inp) (datumSize ?p)) [0 .. batchSize ?p - 1])"
    by (rule assemble_whole[OF inv _ c1 lend]) (use ok ds dsz in \<open>simp_all add: slices_ok_def\<close>)
  thus "data (fst ?ob) = concat (map (decoded_item tr (fst inp) ds) [0 .. bs - 1])"
    by (simp add: bsz dsz)
  have "data (snd ?ob) = concat (map (target_item (snd inp)) [0 .. batchSize ?p - 1])"
    by (rule assemble_whole[OF inv _ c1 lent]) (use ok ts tsz in \<open>simp_all add: slices_ok_def\<close>)
  thus "data (snd ?ob) = concat (map (target_item (snd inp)) [0 .. bs - 1])"
    by (simp add: bsz)
  show "\<forall>k. 0 \<le> k \<and> k < bs \<longrightarrow> getItem (fst inp) k \<noteq> None"
    using all_items_present[OF inv pr] bsz by simp
qed

text \<open>
  C1. The sizes are such that the two pool sizes \<open>batchSize * datumSize\<close> and
  \<open>batchSize * targetSize\<close> are values of \<open>int\<close> (below \<open>2^31\<close>), so that no product
  of \<open>Loader::start\<close> or of \<open>run\<close> overflows. Take any state of the pipeline after
  \<open>start\<close> in which the manager has
  dispatched the input pair \<open>inp\<close> and finds \<open>_endSignaled < _count\<close> false, with a
  transform that writes exactly \<open>datumSize\<close> bytes and an input pair whose targets are
  laid out densely. Then \<open>produce\<close> completes; every data item of the batch was present;
  the data half of the pair it publishes at the write cursor is the transpose, from
  \<open>batchSize\<close> rows of \<open>datumSize\<close> bytes, of the decoded items 0 to
  \<open>batchSize - 1\<close> of \<open>inp\<close> in order; the target half is the concatenation of the
  targets 0 to \<open>batchSize - 1\<close> in order; and these are the bytes copied to the device.
\<close>

theorem C1_delivered_minibatch:
  assumes i: "initial N bs ds ts pin = Inr s0" and r: "reachable tr s0 s"
    and ds: "0 \<le> ds" and ts: "0 \<le> ts"
    and bd: "bs * ds < 2147483648" and bt: "bs * ts < 2147483648"
    and tr: "exact_transform tr ds"
    and m: "mgr s = M_Dispatched" and j: "\<not> (endSignaled (pool s) < count (pool s))"
    and ib: "inputBuf s = Some inp" and dense: "targets_dense inp bs ts"
  shows "\<exists>p' out' dev' d.
           produce_finish (pool s, outPool s, device s) = Inr (p', out', dev')
         \<and> step tr s (s \<lparr> pool := p', outPool := out', device := dev', mgr := M_Await \<rparr>)
         \<and> (\<forall>k. 0 \<le> k \<and> k < bs \<longrightarrow> getItem (fst inp) k \<noteq> None)
         \<and> Matrix_transpose (concat (map (decoded_item tr (fst inp) ds) [0 .. bs - 1])) bs ds = Inr d
         \<and> data (fst (bufs out' ! writePos (outPool s))) = d
         \<and> data (snd (bufs out' ! writePos (outPool s)))
            = concat (map (target_item (snd inp)) [0 .. bs - 1])
         \<and> dev' = device s @ [CopyData (bufferIndex (pool s)) d,
                CopyLabels (bufferIndex (pool s)) (concat (map (target_item (snd inp)) [0 .. bs - 1]))]"
proof -
  note jb = joined_buffer[OF i r ds ts bd bt tr m j ib dense]
  from inv_all_reachable[OF i r]
  have sta: "inv_static N bs ds ts s" by simp
  hence bsz: "batchSize (pool s) = bs" and dsz: "datumSize (pool s) = ds"
    and wp: "writePos (outPool s) < length (bufs (outPool s))"
    by (simp_all add: inv_static_def)
  let ?ob = "getForWrite (outPool s)"
  have b0: "0 \<le> bs" using jb(5) by simp
  from Matrix_transpose_ok[OF b0 ds jb(4)] obtain d where
    d: "Matrix_transpose (data (fst ?ob)) bs ds = Inr d" by blast
  define p' where "p' = (pool s) \<lparr> endSignaled := 0,
               bufferIndex := (if bufferIndex (pool s) = 0 then 1 else 0) \<rparr>"
  define out' where "out' = signalNonEmpty (advanceWritePos
                    (putForWrite (outPool s) ((fst ?ob) \<lparr> data := d \<rparr>, snd ?ob)))"
  define dev' where "dev' = device s @ [CopyData (bufferIndex (pool s)) d,
                         CopyLabels (bufferIndex (pool s)) (data (snd ?ob))]"
  have pf: "produce_finish (pool s, outPool s, device s) = Inr (p', out', dev')"
    unfolding produce_finish_eq using d by (simp add: p'_def out'_def dev'_def bsz dsz)
  have st: "step tr s (s \<lparr> pool := p', outPool := out', device := dev', mgr := M_Await \<rparr>)"
    by (rule step.manager_finish[OF m j pf])
  have slot: "bufs out' ! writePos (outPool s) = ((fst ?ob) \<lparr> data := d \<rparr>, snd ?ob)"
    using wp by (simp add: out'_def)
  show ?thesis
    using pf st jb(3) d slot
    by (intro exI[of _ p'] exI[of _ out'] exI[of _ dev'] exI[of _ d])
       (simp add: jb(1)[symmetric] jb(2)[symmetric] dev'_def)
qed

lemma ex_targets_dense: "targets_dense ex_input 4 1"
proof -
  have g: "getItem (snd ex_input) i = Some (nat (i * 1), nat 1)" if "0 \<le> i" "i < 4" for i :: int
  proof -
    from that have "i = 0 \<or> i = 1 \<or> i = 2 \<or> i = 3" by linarith
    thus ?thesis by (auto simp: ex_input_def getItem_def)
  qed
  have "4 * 1 \<le> int (length (data (snd ex_input)))" by (simp add: ex_input_def)
  thus ?thesis using g by (simp add: targets_dense_def)
qed

lemma ex_joined_input: "inputBuf ex_joined = Some ex_input"
  by code_simp

lemma ex_expected_data:
  "Matrix_transpose (concat (map (decoded_item pad_transform (fst ex_input) 2) [0 .. 4 - 1])) 4 2
   = Inr [0x10, 0x20, 0x30, 0x40, 0x11, 0x21, 0x31, 0x41]"
  by code_simp

lemma ex_expected_targets:
  "concat (map (target_item (snd ex_input)) [0 .. 4 - 1]) = [0xA0, 0xA1, 0xA2, 0xA3]"
  by code_simp

theorem C1_delivered_minibatch_witness:
  "initial 2 4 2 1 False = Inr ex_initial
   \<and> reachable pad_transform ex_initial ex_joined
   \<and> (0::int) \<le> 2 \<and> (0::int) \<le> 1
   \<and> (4::int) * 2 < 2147483648 \<and> (4::int) * 1 < 2147483648
   \<and> exact_transform pad_transform 2
   \<and> mgr ex_joined = M_Dispatched
   \<and> \<not> (endSignaled (pool ex_joined) < count (pool ex_joined))
   \<and> inputBuf ex_joined = Some ex_input
   \<and> targets_dense ex_input 4 1
   \<and> (\<exists>p' out' dev'.
         produce_finish (pool ex_joined, outPool ex_joined, device ex_joined) = Inr (p', out', dev')
       \<and> data (fst (bufs out' ! writePos (outPool ex_joined)))
          = [0x10, 0x20, 0x30, 0x40, 0x11, 0x21, 0x31, 0x41]
       \<and> data (snd (bufs out' ! writePos (outPool ex_joined))) = [0xA0, 0xA1, 0xA2, 0xA3])"
proof -
  have h3: "(0::int) \<le> 2" and h4: "(0::int) \<le> 1" by simp_all
  have b1: "(4::int) * 2 < 2147483648" and b2: "(4::int) * 1 < 2147483648" by simp_all
  have h5: "exact_transform pad_transform 2" using exact_pad_transform[of 2] by simp
  have h6: "mgr ex_joined = M_Dispatched" by (rule ex_joined_fields)
  have h7: "\<not> (endSignaled (pool ex_joined) < count (pool ex_joined))"
    by (simp add: ex_joined_fields)
  from C1_delivered_minibatch[OF ex_initial_eq ex_joined_reachable h3 h4 b1 b2 h5 h6 h7
      ex_joined_input ex_targets_dense]
  obtain p' out' dev' d where
    pf: "produce_finish (pool ex_joined, outPool ex_joined, device ex_joined) = Inr (p', out', dev')"
    and d: "Matrix_transpose (concat (map (decoded_item pad_transform (fst ex_input) 2) [0 .. 4 - 1])) 4 2 = Inr d"
    and dd: "data (fst (bufs out' ! writePos (outPool ex_joined))) = d"
    and tt: "data (snd (bufs out' ! writePos (outPool ex_joined)))
            = concat (map (target_item (snd ex_input)) [0 .. 4 - 1])"
    by blast
  have d': "d = [0x10, 0x20, 0x30, 0x40, 0x11, 0x21, 0x31, 0x41]"
    using d unfolding ex_expected_data by simp
  have ex: "\<exists>p' out' dev'.
         produce_finish (pool ex_joined, outPool ex_joined, device ex_joined) = Inr (p', out', dev')
       \<and> data (fst (bufs out' ! writePos (outPool ex_joined)))
          = [0x10, 0x20, 0x30, 0x40, 0x11, 0x21, 0x31, 0x41]
       \<and> data (snd (bufs out' ! writePos (outPool ex_joined))) = [0xA0, 0xA1, 0xA2, 0xA3]"
    using pf dd tt d' ex_expected_targets by (intro exI[of _ p'] exI[of _ out'] exI[of _ dev']) simp
  show ?thesis
    by (intro conjI) (fact ex_initial_eq ex_joined_reachable h3 h4 b1 b2 h5 h6 h7
        ex_joined_input ex_targets_dense ex)+
qed

end
